theory Spec2Isabelle
  imports Main "HOL-Library.Word"
begin

unbundle bit_operations_syntax

section \<open>DMA fragments and the fragment cache (include/linux/dma-fragment.h)\<close>

text \<open>
  C objects are addressed by pointers; a pointer is a natural number and a
  pointer that may be NULL is an \<open>option\<close>.  The kernel state keeps one heap
  per struct type.  The spinlocks of the source are not modelled: every
  function below is one sequential run of its body.
\<close>

type_synonym u8 = "8 word"
type_synonym u16 = "16 word"
type_synonym u32 = "32 word"
type_synonym u64 = "64 word"

type_synonym link_ptr = nat
type_synonym frag_ptr = nat
type_synonym cache_ptr = nat

text \<open>
  \<open>gfp_t\<close> is the allocation-flags bit mask of the kernel.  The two values
  the sources name are those of the kernel headers the driver was built
  against (\<open>__GFP_WAIT = 0x10\<close>, \<open>__GFP_HIGH = 0x20\<close>, \<open>__GFP_IO = 0x40\<close>,
  \<open>__GFP_FS = 0x80\<close>); an allocation may sleep exactly when \<open>__GFP_WAIT\<close> is set.
\<close>

type_synonym gfp_t = u32

definition GFP_WAIT :: gfp_t where
  "GFP_WAIT = 0x10"

definition GFP_ATOMIC :: gfp_t where
  "GFP_ATOMIC = 0x20"

definition GFP_KERNEL :: gfp_t where
  "GFP_KERNEL = 0xD0"

definition gfp_may_sleep :: "gfp_t \<Rightarrow> bool" where
  "gfp_may_sleep g \<longleftrightarrow> g AND GFP_WAIT \<noteq> 0"

text \<open>
  \<open>struct dma_link\<close>: the fields \<open>cb\<close>, \<open>size\<close>, \<open>desc\<close> and \<open>pool\<close> play no role
  in the functions modelled here.  \<open>cb_next\<close> is the next-control-block word
  inside the control block \<open>cb\<close>, the only part of it the scheduler writes.
\<close>

record dma_link =
  cb_dma :: u32
  cb_next :: u32
  fragment :: "frag_ptr option"

text \<open>
  \<open>struct dma_fragment\<close>: \<open>cache\<close> is the owning cache (NULL when the fragment
  belongs to none), \<open>dma_link_list\<close> the list of links in list order.
\<close>

record dma_fragment =
  cache :: "cache_ptr option"
  dma_link_list :: "link_ptr list"
  link_head :: "link_ptr option"
  link_tail :: "link_ptr option"

text \<open>
  \<open>struct dma_fragment_cache\<close>: the \<open>active\<close> and \<open>idle\<close> lists hold fragment
  pointers, first list entry first.  \<open>count_fetched\<close> is an \<open>unsigned long\<close>,
  32 bits wide on the ARM11 core of the BCM2835.
\<close>

record dma_fragment_cache =
  active :: "frag_ptr list"
  idle :: "frag_ptr list"
  count_active :: u32
  count_idle :: u32
  count_allocated :: u32
  count_allocated_kernel :: u32
  count_fetched :: u32
  count_removed :: u32

text \<open>
  The kernel state seen by dma-fragment.h.  \<open>allocateFragment\<close> stands for
  the per-cache allocation callbacks: the \<open>n\<close>-th allocation attempt made so
  far either fails (NULL) or delivers a freshly built fragment.
  \<open>alloc_log\<close> records the flags of every attempt, \<open>kmsg\<close> the lines written
  with \<open>printk\<close>.
\<close>

record kstate =
  caches :: "cache_ptr \<Rightarrow> dma_fragment_cache"
  frags :: "frag_ptr \<Rightarrow> dma_fragment"
  links :: "link_ptr \<Rightarrow> dma_link"
  allocateFragment :: "nat \<Rightarrow> dma_fragment option"
  alloc_log :: "gfp_t list"
  next_frag :: frag_ptr
  kmsg :: "string list"

subsection \<open>Fragments and links\<close>

definition dma_fragment_init :: "dma_fragment" where
  "dma_fragment_init =
     \<lparr>cache = None, dma_link_list = [], link_head = None, link_tail = None\<rparr>"

definition dma_fragment_set_default_links :: "dma_fragment \<Rightarrow> dma_fragment" where
  "dma_fragment_set_default_links f =
     (case dma_link_list f of
        [] \<Rightarrow> f
      | l # ls \<Rightarrow>
          (let f1 = (if link_head f = None then f\<lparr>link_head := Some l\<rparr> else f)
           in if link_tail f1 = None then f1\<lparr>link_tail := Some (last (l # ls))\<rparr> else f1))"

text \<open>
  \<open>dma_fragment_add_dma_link\<close>: \<open>list_add_tail\<close> puts the link at the end of
  the fragment's link list, then the link's back-reference is set.
\<close>

definition dma_fragment_add_dma_link ::
  "frag_ptr \<Rightarrow> link_ptr \<Rightarrow> 'a kstate_scheme \<Rightarrow> 'a kstate_scheme" where
  "dma_fragment_add_dma_link f l s =
     s\<lparr>frags := (frags s)(f := (frags s f)\<lparr>dma_link_list := dma_link_list (frags s f) @ [l]\<rparr>),
       links := (links s)(l := (links s l)\<lparr>fragment := Some f\<rparr>)\<rparr>"

text \<open>A link is on a list when some fragment's link list holds it.\<close>

definition link_listed :: "'a kstate_scheme \<Rightarrow> link_ptr \<Rightarrow> bool" where
  "link_listed s l \<longleftrightarrow> (\<exists>f. l \<in> set (dma_link_list (frags s f)))"

definition links_point_back :: "'a kstate_scheme \<Rightarrow> bool" where
  "links_point_back s \<longleftrightarrow>
     (\<forall>f l. l \<in> set (dma_link_list (frags s f)) \<longrightarrow> fragment (links s l) = Some f)"

subsection \<open>The cache\<close>

definition DMA_FRAGMENT_CACHE_TO_IDLE :: int where
  "DMA_FRAGMENT_CACHE_TO_IDLE = 1"

definition DMA_FRAGMENT_CACHE_TO_ACTIVE :: int where
  "DMA_FRAGMENT_CACHE_TO_ACTIVE = 0"

text \<open>
  Modelled from the spec: \<open>dma_fragment_cache_add\<close> is only declared in the
  header.  Following its documentation and the cache description it calls
  the cache's allocator with the given flags; on failure it returns NULL and
  changes nothing else; on success the new fragment records the cache as its
  owner and is put on the idle list (flag \<open>TO_IDLE\<close>) or on the active list,
  with the matching counter and the allocation counters incremented.
\<close>

definition dma_fragment_cache_add ::
  "cache_ptr \<Rightarrow> gfp_t \<Rightarrow> int \<Rightarrow> 'a kstate_scheme \<Rightarrow> frag_ptr option \<times> 'a kstate_scheme" where
  "dma_fragment_cache_add c gfpflags flags s =
     (let s1 = s\<lparr>alloc_log := alloc_log s @ [gfpflags]\<rparr> in
      case allocateFragment s (length (alloc_log s)) of
        None \<Rightarrow> (None, s1)
      | Some fr \<Rightarrow>
          (let p = next_frag s;
               ch = caches s c;
               ch1 = (if flags = DMA_FRAGMENT_CACHE_TO_IDLE
                      then ch\<lparr>idle := p # idle ch, count_idle := count_idle ch + 1\<rparr>
                      else ch\<lparr>active := p # active ch, count_active := count_active ch + 1\<rparr>);
               ch2 = ch1\<lparr>count_allocated := count_allocated ch1 + 1\<rparr>;
               ch3 = (if gfpflags = GFP_KERNEL
                      then ch2\<lparr>count_allocated_kernel := count_allocated_kernel ch2 + 1\<rparr>
                      else ch2)
           in (Some p,
               s1\<lparr>frags := (frags s)(p := fr\<lparr>cache := Some c\<rparr>),
                  next_frag := Suc p,
                  caches := (caches s)(c := ch3)\<rparr>)))"

text \<open>
  The locked part of \<open>dma_fragment_cache_fetch\<close>: the first idle fragment,
  if there is one, moves to the head of the active list; the fetch counter is
  incremented in either case.  The result carries the fragment found and
  the value of \<open>is_empty\<close> at the unlock.
\<close>

definition cache_fetch_locked ::
  "dma_fragment_cache \<Rightarrow> frag_ptr option \<times> bool \<times> dma_fragment_cache" where
  "cache_fetch_locked ch =
     (case idle ch of
        [] \<Rightarrow> (None, True, ch\<lparr>count_fetched := count_fetched ch + 1\<rparr>)
      | p # rest \<Rightarrow>
          (Some p, rest = [],
           ch\<lparr>idle := rest, active := p # active ch,
              count_active := count_active ch + 1,
              count_idle := count_idle ch - 1,
              count_fetched := count_fetched ch + 1\<rparr>))"

definition dma_fragment_cache_fetch ::
  "cache_ptr \<Rightarrow> gfp_t \<Rightarrow> 'a kstate_scheme \<Rightarrow> frag_ptr option \<times> 'a kstate_scheme" where
  "dma_fragment_cache_fetch c gfpflags s =
     (case cache_fetch_locked (caches s c) of
        (frag0, is_empty, ch) \<Rightarrow>
          (let s1 = s\<lparr>caches := (caches s)(c := ch)\<rparr>;
               (frag, s2) = (case frag0 of
                               None \<Rightarrow> dma_fragment_cache_add c gfpflags
                                         DMA_FRAGMENT_CACHE_TO_ACTIVE s1
                             | Some p \<Rightarrow> (Some p, s1));
               s3 = (if gfpflags = GFP_KERNEL \<and> is_empty
                     then snd (dma_fragment_cache_add c gfpflags
                                 DMA_FRAGMENT_CACHE_TO_IDLE s2)
                     else s2)
           in (frag, s3)))"

text \<open>
  \<open>list_del\<close> of the \<open>cache_list\<close> node of a fragment takes the fragment off
  the cache list it is on, whichever cache that list belongs to; no counter
  is touched.
\<close>

definition list_del_frag ::
  "frag_ptr \<Rightarrow> (cache_ptr \<Rightarrow> dma_fragment_cache) \<Rightarrow> cache_ptr \<Rightarrow> dma_fragment_cache" where
  "list_del_frag p cs d =
     (cs d)\<lparr>active := removeAll p (active (cs d)), idle := removeAll p (idle (cs d))\<rparr>"

text \<open>
  \<open>dma_fragment_cache_return\<close>: \<open>list_move\<close> unlinks the fragment from the list
  it is on and puts it at the head of the idle list of the cache the
  fragment records; the counters of that cache are changed whatever list
  the fragment came from.  A fragment without a cache is reported with
  \<open>printk\<close> and nothing else happens.
\<close>

definition dma_fragment_cache_return ::
  "frag_ptr \<Rightarrow> 'a kstate_scheme \<Rightarrow> 'a kstate_scheme" where
  "dma_fragment_cache_return p s =
     (case cache (frags s p) of
        Some c \<Rightarrow>
          (let cs = list_del_frag p (caches s);
               ch = cs c
           in s\<lparr>caches := cs(c :=
                   ch\<lparr>idle := p # idle ch,
                      count_idle := count_idle ch + 1,
                      count_active := count_active ch - 1\<rparr>)\<rparr>)
      | None \<Rightarrow>
          s\<lparr>kmsg := kmsg s @
             [''dma_fragment_cache_return: fragment not in a cache, so not returning'']\<rparr>)"

section \<open>Messages, merged fragments and the driver state\<close>

type_synonym msg_ptr = nat
type_synonym addr = nat

definition EPERM :: int where
  "EPERM = 1"

definition ENOMEM :: int where
  "ENOMEM = 12"

definition EINVAL :: int where
  "EINVAL = 22"

definition EINPROGRESS :: int where
  "EINPROGRESS = 115"

text \<open>
  \<open>struct spi_transfer\<close> and \<open>struct spi_message\<close>, with the fields the driver
  reads.  \<open>complete\<close> tells whether the completion callback is set, \<open>state\<close>
  is the driver's per-message pointer (the merged fragment), \<open>spi\<close> the device
  the message was submitted for.
\<close>

record spi_transfer =
  len :: u32
  speed_hz :: u32
  bits_per_word :: u8
  tx_nbits :: u8
  rx_nbits :: u8
  cs_change :: bool
  delay_usecs :: u16

record spi_message =
  transfers :: "spi_transfer list"
  spi :: nat
  complete :: bool
  is_optimized :: bool
  status :: int
  actual_length :: u32
  state :: "frag_ptr option"

text \<open>
  \<open>struct spi_merged_dma_fragment\<close> starts with a \<open>struct dma_fragment\<close> (kept
  in the fragment heap under the same pointer) and adds the fields below.
  \<open>complete_data\<close> points to the two-word completion sentinel in memory.
  \<open>spliced\<close> is the chain built so far: for every fragment merged in, the
  cache it was fetched from, the fragment, and the transfer that was current.
\<close>

record spi_merged_dma_fragment =
  message :: "msg_ptr option"
  transfer :: "spi_transfer option"
  last_transfer :: "spi_transfer option"
  complete_data :: "addr option"
  needs_spi_setup :: bool
  spliced :: "(cache_ptr \<times> frag_ptr \<times> spi_transfer option) list"

datatype trace_entry =
  Dequeued msg_ptr
| PostTransforms frag_ptr
| Released frag_ptr
| CompleteCalled msg_ptr

text \<open>
  The driver state: the kernel state above, the message and merged-fragment
  heaps, \<open>master->queue\<close>, the two registers of the RX DMA channel that the
  scheduler touches, the statistics of \<open>struct bcm2835dma_spi\<close>, the memory
  words shared with the DMA engine, the result that executing the
  pre-DMA transforms of a merged fragment will have, and the trace of what
  the reclaim code did.
\<close>

record dstate = kstate +
  merged :: "frag_ptr \<Rightarrow> spi_merged_dma_fragment"
  msgs :: "msg_ptr \<Rightarrow> spi_message"
  queue :: "msg_ptr list"
  dma_rx_CS :: u32
  dma_rx_ADDR :: u32
  last_message_dma_was_running :: u32
  count_dma_started :: u64
  count_dma_still_running :: u64
  count_spi_messages :: u64
  count_spi_optimized_messages :: u64
  mem :: "addr \<Rightarrow> u32"
  pre_transform_err :: "frag_ptr \<Rightarrow> int"
  trace :: "trace_entry list"

text \<open>
  A C function that dereferences a NULL pointer does not return; a loop
  that is cut off by its fuel has not returned yet.  \<open>list_add_tail\<close> of a
  node that is already on the list makes the node its own neighbour and
  leaves a structure that is no list any more; the queue is kept as a list
  here, so such a call ends in \<open>ListCorrupt\<close> and is not followed further.
\<close>

datatype 'a outcome = Returns 'a | NullDeref | OutOfFuel | ListCorrupt

section \<open>The driver (drivers/spi/spi-bcm2835dma\_drv.c)\<close>

text \<open>The fragment caches of \<open>struct bcm2835dma_spi\<close>, by address.\<close>

definition fragment_merged :: cache_ptr where
  "fragment_merged = 0"

definition fragment_setup_spi :: cache_ptr where
  "fragment_setup_spi = 1"

definition fragment_transfer :: cache_ptr where
  "fragment_transfer = 2"

definition fragment_cs_deselect :: cache_ptr where
  "fragment_cs_deselect = 3"

definition fragment_delay :: cache_ptr where
  "fragment_delay = 4"

definition fragment_trigger_irq :: cache_ptr where
  "fragment_trigger_irq = 5"

text \<open>
  Modelled from the spec: \<open>BCM2835_DMA_CS_ACTIVE\<close> comes from a header that is
  not part of the sources; it is the active bit of the engine's status
  register, bit 0.
\<close>

definition BCM2835_DMA_CS_ACTIVE :: u32 where
  "BCM2835_DMA_CS_ACTIVE = 1"

text \<open>
  Modelled from the spec: \<open>bcm2835_link_dma_link\<close> is not part of the sources.
  It makes the next-pointer of the control block of the first link the bus
  address of the second link's control block.
\<close>

definition bcm2835_link_dma_link ::
  "link_ptr option \<Rightarrow> link_ptr option \<Rightarrow> dstate \<Rightarrow> dstate outcome" where
  "bcm2835_link_dma_link from to s =
     (case (from, to) of
        (Some t, Some h) \<Rightarrow>
          Returns (s\<lparr>links := (links s)(t := (links s t)\<lparr>cb_next := cb_dma (links s h)\<rparr>)\<rparr>)
      | _ \<Rightarrow> NullDeref)"

text \<open>
  Modelled from the spec: \<open>spi_merged_dma_fragment_merge_fragment_cache\<close> is
  not part of the sources.  Splicing fetches a fragment from the cache (a
  failed fetch is \<open>-ENOMEM\<close>), links the tail of the chain built so far to
  the head of the new fragment and advances the tail of the chain.
\<close>

definition spi_merged_dma_fragment_merge_fragment_cache ::
  "cache_ptr \<Rightarrow> frag_ptr \<Rightarrow> gfp_t \<Rightarrow> dstate \<Rightarrow> int \<times> dstate" where
  "spi_merged_dma_fragment_merge_fragment_cache c mp gfpflags s =
     (case dma_fragment_cache_fetch c gfpflags s of
        (None, s1) \<Rightarrow> (- ENOMEM, s1)
      | (Some p, s1) \<Rightarrow>
          (let mf = frags s1 mp;
               pf = frags s1 p;
               s2 = (case (link_tail mf, link_head pf) of
                       (Some t, Some h) \<Rightarrow>
                         s1\<lparr>links := (links s1)(t := (links s1 t)\<lparr>cb_next := cb_dma (links s1 h)\<rparr>)\<rparr>
                     | _ \<Rightarrow> s1);
               mf1 = mf\<lparr>link_head := (if link_head mf = None then link_head pf else link_head mf),
                        link_tail := (if link_tail pf = None then link_tail mf else link_tail pf)\<rparr>;
               mg = merged s2 mp
           in (0, s2\<lparr>frags := (frags s2)(mp := mf1),
                     merged := (merged s2)(mp :=
                        mg\<lparr>spliced := spliced mg @ [(c, p, transfer mg)]\<rparr>)\<rparr>)))"

text \<open>
  Modelled from the spec: \<open>dma_fragment_release\<close> is not part of the sources.
  It returns every fragment spliced into the merged fragment to its cache,
  then the merged fragment itself.
\<close>

definition dma_fragment_release :: "frag_ptr \<Rightarrow> dstate \<Rightarrow> dstate" where
  "dma_fragment_release mp s =
     (let s1 = fold (\<lambda>(c, p, x). dma_fragment_cache_return p) (spliced (merged s mp)) s;
          s2 = dma_fragment_cache_return mp s1
      in s2\<lparr>merged := (merged s2)(mp := (merged s2 mp)\<lparr>spliced := []\<rparr>),
            trace := trace s2 @ [Released mp]\<rparr>)"

subsection \<open>Compiling a message: \<open>bcm2835dma_spi_message_to_dma_fragment\<close>\<close>

text \<open>
  The test whether the SPI configuration has to be set up again: the transfer
  is compared with \<open>merged->last_transfer\<close>, which is dereferenced without a
  NULL check.
\<close>

definition reconfigure_check ::
  "spi_merged_dma_fragment \<Rightarrow> spi_transfer \<Rightarrow> spi_merged_dma_fragment outcome" where
  "reconfigure_check mg xfer =
     (if \<not> needs_spi_setup mg then
        (case last_transfer mg of
           None \<Rightarrow> NullDeref
         | Some lt \<Rightarrow>
             Returns
               (if speed_hz lt \<noteq> speed_hz xfer then mg\<lparr>needs_spi_setup := True\<rparr>
                else if tx_nbits lt \<noteq> tx_nbits xfer then mg\<lparr>needs_spi_setup := True\<rparr>
                else if rx_nbits lt \<noteq> rx_nbits xfer then mg\<lparr>needs_spi_setup := True\<rparr>
                else if bits_per_word lt \<noteq> bits_per_word xfer then mg\<lparr>needs_spi_setup := True\<rparr>
                else mg))
      else Returns mg)"

text \<open>
  One pass of the loop over the transfers, after \<open>reconfigure_check\<close>.  The
  result is the value of \<open>err\<close>; a non-zero value is the jump to \<open>error:\<close>.
\<close>

definition merge_one_transfer ::
  "frag_ptr \<Rightarrow> gfp_t \<Rightarrow> spi_transfer \<Rightarrow> bool \<Rightarrow> dstate \<Rightarrow> int \<times> dstate" where
  "merge_one_transfer mp gfpflags xfer is_last s =
     (let (err1, s1) =
            (if needs_spi_setup (merged s mp) then
               (case spi_merged_dma_fragment_merge_fragment_cache
                       fragment_setup_spi mp gfpflags s of
                  (err, t) \<Rightarrow>
                    if err \<noteq> 0 then (err, t)
                    else (0, t\<lparr>merged := (merged t)(mp :=
                                 (merged t mp)\<lparr>needs_spi_setup := False\<rparr>)\<rparr>))
             else (0, s))
      in if err1 \<noteq> 0 then (err1, s1)
         else
           (let (err2, s2) =
                  (if len xfer \<noteq> 0 then
                     (case spi_merged_dma_fragment_merge_fragment_cache
                             fragment_transfer mp gfpflags s1 of
                        (err, t) \<Rightarrow>
                          if err \<noteq> 0 then (err, t)
                          else (0, t\<lparr>merged := (merged t)(mp :=
                                       (merged t mp)\<lparr>last_transfer := Some xfer\<rparr>)\<rparr>))
                   else (0, s1))
            in if err2 \<noteq> 0 then (err2, s2)
               else if cs_change xfer \<or> is_last then
                 spi_merged_dma_fragment_merge_fragment_cache
                   fragment_cs_deselect mp gfpflags s2
               else if delay_usecs xfer \<noteq> 0 then
                 spi_merged_dma_fragment_merge_fragment_cache
                   fragment_delay mp gfpflags s2
               else (0, s2)))"

fun merge_transfers ::
  "frag_ptr \<Rightarrow> gfp_t \<Rightarrow> spi_transfer list \<Rightarrow> dstate \<Rightarrow> (int \<times> dstate) outcome" where
  "merge_transfers mp gfpflags [] s = Returns (0, s)"
| "merge_transfers mp gfpflags (xfer # rest) s =
     (let s0 = s\<lparr>merged := (merged s)(mp := (merged s mp)\<lparr>transfer := Some xfer\<rparr>)\<rparr> in
      case reconfigure_check (merged s0 mp) xfer of
        Returns mg \<Rightarrow>
          (case merge_one_transfer mp gfpflags xfer (rest = [])
                  (s0\<lparr>merged := (merged s0)(mp := mg)\<rparr>) of
             (err, s1) \<Rightarrow>
               if err \<noteq> 0 then Returns (err, s1)
               else merge_transfers mp gfpflags rest s1)
      | NullDeref \<Rightarrow> NullDeref
      | OutOfFuel \<Rightarrow> OutOfFuel
      | ListCorrupt \<Rightarrow> ListCorrupt)"

text \<open>
  The \<open>error:\<close> label of the compiler prints the error and dumps the merged
  fragment, then returns NULL.
\<close>

definition message_to_dma_fragment_error :: "int \<Rightarrow> dstate \<Rightarrow> frag_ptr option \<times> dstate" where
  "message_to_dma_fragment_error err s =
     (None, s\<lparr>kmsg := kmsg s @ [''bcm2835dma_spi_message_to_dma_fragment: err'']\<rparr>)"

definition bcm2835dma_spi_message_to_dma_fragment ::
  "msg_ptr \<Rightarrow> int \<Rightarrow> gfp_t \<Rightarrow> dstate \<Rightarrow> (frag_ptr option \<times> dstate) outcome" where
  "bcm2835dma_spi_message_to_dma_fragment m flags gfpflags s =
     (case dma_fragment_cache_fetch fragment_merged gfpflags s of
        (None, s1) \<Rightarrow> Returns (None, s1)
      | (Some mp, s1) \<Rightarrow>
          (let s2 = s1\<lparr>merged := (merged s1)(mp :=
                         (merged s1 mp)\<lparr>message := Some m, transfer := None,
                            last_transfer := None, complete_data := None,
                            needs_spi_setup := True\<rparr>),
                       frags := (frags s1)(mp :=
                         (frags s1 mp)\<lparr>link_head := None, link_tail := None\<rparr>)\<rparr>
           in case merge_transfers mp gfpflags (transfers (msgs s2 m)) s2 of
                Returns (err, s3) \<Rightarrow>
                  if err \<noteq> 0 then Returns (message_to_dma_fragment_error err s3)
                  else
                    (case (if complete (msgs s3 m)
                           then spi_merged_dma_fragment_merge_fragment_cache
                                  fragment_trigger_irq mp gfpflags s3
                           else (0, s3)) of
                       (err4, s4) \<Rightarrow>
                         if err4 \<noteq> 0 then Returns (message_to_dma_fragment_error err4 s4)
                         else Returns (Some mp,
                                s4\<lparr>merged := (merged s4)(mp :=
                                     (merged s4 mp)\<lparr>transfer := None, last_transfer := None\<rparr>)\<rparr>))
              | NullDeref \<Rightarrow> NullDeref
              | OutOfFuel \<Rightarrow> OutOfFuel
              | ListCorrupt \<Rightarrow> ListCorrupt))"

subsection \<open>Scheduling: \<open>bcm2835dma_schedule_dma_fragment\<close>\<close>

text \<open>
  \<open>readl\<close> of the status register yields the register's current value;
  \<open>writel\<close> stores the value written.  The hardware changes the register on
  its own only between calls (see the events below).
  \<open>list_add_tail\<close> appends the message to the queue when the
  message is not on the queue; for a message that is still on the queue the
  pointers it writes do not form a list any more (a node that was the tail
  becomes its own neighbour).
\<close>

definition dma_is_idle :: "dstate \<Rightarrow> bool" where
  "dma_is_idle s \<longleftrightarrow> dma_rx_CS s AND BCM2835_DMA_CS_ACTIVE = 0"

definition bcm2835dma_schedule_dma_fragment :: "msg_ptr \<Rightarrow> dstate \<Rightarrow> (int \<times> dstate) outcome" where
  "bcm2835dma_schedule_dma_fragment m s =
     (if m \<in> set (queue s) then ListCorrupt else
      let frag = state (msgs s m);
          last_msg = (if queue s \<noteq> [] then Some (last (queue s)) else None);
          s1 = s\<lparr>queue := queue s @ [m]\<rparr>
      in case (case last_msg of
                 None \<Rightarrow> Returns s1
               | Some lm \<Rightarrow>
                   (case (state (msgs s1 lm), frag) of
                      (Some last_frag, Some f) \<Rightarrow>
                        bcm2835_link_dma_link (link_tail (frags s1 last_frag))
                          (link_head (frags s1 f)) s1
                    | _ \<Rightarrow> NullDeref)) of
           Returns s2 \<Rightarrow>
             (if dma_is_idle s2 then
                (case frag of
                   None \<Rightarrow> NullDeref
                 | Some f \<Rightarrow>
                     (case link_head (frags s2 f) of
                        None \<Rightarrow> NullDeref
                      | Some h \<Rightarrow>
                          Returns (0,
                            s2\<lparr>dma_rx_ADDR := cb_dma (links s2 h),
                               dma_rx_CS := BCM2835_DMA_CS_ACTIVE,
                               last_message_dma_was_running := 0,
                               count_dma_started := count_dma_started s2 + 1\<rparr>)))
              else
                Returns (0,
                  s2\<lparr>last_message_dma_was_running := 1,
                     count_dma_still_running := count_dma_still_running s2 + 1\<rparr>))
         | NullDeref \<Rightarrow> NullDeref
         | OutOfFuel \<Rightarrow> OutOfFuel
         | ListCorrupt \<Rightarrow> ListCorrupt)"

subsection \<open>Reclaiming: \<open>bcm2835dma_release_cb_chain_complete\<close>\<close>

text \<open>
  The sentinel test: with a sentinel pointer set and both words zero the
  head of the queue is not complete yet.
\<close>

definition sentinel_pending :: "dstate \<Rightarrow> frag_ptr \<Rightarrow> bool" where
  "sentinel_pending s f =
     (case complete_data (merged s f) of
        None \<Rightarrow> False
      | Some a \<Rightarrow> mem s a = 0 \<and> mem s (Suc a) = 0)"

text \<open>
  The body of the loop after the sentinel test, for the head message \<open>m\<close> and
  its fragment \<open>f\<close>: \<open>list_del_init\<close> takes \<open>frag->message\<close> off the queue,
  status and length of \<open>m\<close> are reset, the post-DMA transforms run, the
  fragment is released unless the message is optimized, and the callback is
  called if there is one.
\<close>

definition release_message :: "msg_ptr \<Rightarrow> frag_ptr \<Rightarrow> dstate \<Rightarrow> dstate outcome" where
  "release_message m f s =
     (case message (merged s f) of
        None \<Rightarrow> NullDeref
      | Some m' \<Rightarrow>
          (let s1 = s\<lparr>queue := removeAll m' (queue s), trace := trace s @ [Dequeued m']\<rparr>;
               s2 = s1\<lparr>msgs := (msgs s1)(m := (msgs s1 m)\<lparr>status := 0, actual_length := 1\<rparr>)\<rparr>;
               s3 = s2\<lparr>trace := trace s2 @ [PostTransforms f]\<rparr>;
               s4 = (if \<not> is_optimized (msgs s3 m) then dma_fragment_release f s3 else s3);
               s5 = (if complete (msgs s4 m)
                     then s4\<lparr>trace := trace s4 @ [CompleteCalled m]\<rparr> else s4)
           in Returns s5))"

fun bcm2835dma_release_cb_chain_complete :: "nat \<Rightarrow> dstate \<Rightarrow> dstate outcome" where
  "bcm2835dma_release_cb_chain_complete 0 s = OutOfFuel"
| "bcm2835dma_release_cb_chain_complete (Suc n) s =
     (case queue s of
        [] \<Rightarrow> Returns s
      | m # rest \<Rightarrow>
          (case state (msgs s m) of
             None \<Rightarrow> NullDeref
           | Some f \<Rightarrow>
               if sentinel_pending s f then Returns s
               else
                 (case release_message m f s of
                    Returns s1 \<Rightarrow> bcm2835dma_release_cb_chain_complete n s1
                  | NullDeref \<Rightarrow> NullDeref
                  | OutOfFuel \<Rightarrow> OutOfFuel
                  | ListCorrupt \<Rightarrow> ListCorrupt)))"

subsection \<open>Submitting: \<open>bcm2835dma_spi_transfer\<close> and \<open>__spi_async\<close>\<close>

definition bcm2835dma_spi_transfer :: "msg_ptr \<Rightarrow> dstate \<Rightarrow> (int \<times> dstate) outcome" where
  "bcm2835dma_spi_transfer m s =
     (case (if is_optimized (msgs s m) then Returns (state (msgs s m), s)
            else
              (case bcm2835dma_spi_message_to_dma_fragment m 0 GFP_ATOMIC s of
                 Returns (mg, t) \<Rightarrow>
                   Returns (mg, t\<lparr>msgs := (msgs t)(m := (msgs t m)\<lparr>state := mg\<rparr>)\<rparr>)
               | NullDeref \<Rightarrow> NullDeref
               | OutOfFuel \<Rightarrow> OutOfFuel
               | ListCorrupt \<Rightarrow> ListCorrupt)) of
        Returns (None, s1) \<Rightarrow> Returns (- ENOMEM, s1)
      | Returns (Some mp, s1) \<Rightarrow>
          (let s2 = s1\<lparr>msgs := (msgs s1)(m := (msgs s1 m)\<lparr>actual_length := 0\<rparr>)\<rparr> in
           if pre_transform_err s2 mp \<noteq> 0 then
             Returns (- EPERM,
               dma_fragment_release mp
                 (s2\<lparr>kmsg := kmsg s2 @ [''spi_transfer_failed'']\<rparr>))
           else
             (let s3 = s2\<lparr>count_spi_messages := count_spi_messages s2 + 1\<rparr>;
                  s4 = (if is_optimized (msgs s3 m)
                        then s3\<lparr>count_spi_optimized_messages :=
                                  count_spi_optimized_messages s3 + 1\<rparr>
                        else s3)
              in case bcm2835dma_schedule_dma_fragment m s4 of
                   Returns (r, s5) \<Rightarrow> Returns (0, s5)
                 | NullDeref \<Rightarrow> NullDeref
                 | OutOfFuel \<Rightarrow> OutOfFuel
                 | ListCorrupt \<Rightarrow> ListCorrupt))
      | NullDeref \<Rightarrow> NullDeref
      | OutOfFuel \<Rightarrow> OutOfFuel
      | ListCorrupt \<Rightarrow> ListCorrupt)"

text \<open>
  \<open>__spi_verify\<close> and \<open>__spi_async\<close> as the patch to drivers/spi/spi.c has them
  (an identifier cannot start with an underscore here).
  The patch shows the first two checks of \<open>__spi_verify\<close>; the checks after
  them are the parameter \<open>rest\<close>.  \<open>master->transfer\<close> is
  \<open>bcm2835dma_spi_transfer\<close>, as the probe function sets it.
\<close>

definition spi_verify :: "(spi_message \<Rightarrow> int) \<Rightarrow> spi_message \<Rightarrow> int" where
  "spi_verify rest msg =
     (if transfers msg = [] then - EINVAL
      else if \<not> complete msg then - EINVAL
      else rest msg)"

definition spi_async ::
  "(spi_message \<Rightarrow> int) \<Rightarrow> nat \<Rightarrow> msg_ptr \<Rightarrow> dstate \<Rightarrow> (int \<times> dstate) outcome" where
  "spi_async rest dev m s =
     (if is_optimized (msgs s m) then
        (if dev \<noteq> spi (msgs s m) then Returns (- EINVAL, s)
         else bcm2835dma_spi_transfer m
                (s\<lparr>msgs := (msgs s)(m := (msgs s m)\<lparr>status := - EINPROGRESS\<rparr>)\<rparr>))
      else
        (let s1 = s\<lparr>msgs := (msgs s)(m := (msgs s m)\<lparr>spi := dev\<rparr>)\<rparr>;
             ret = spi_verify rest (msgs s1 m)
         in if ret \<noteq> 0 then Returns (ret, s1)
            else bcm2835dma_spi_transfer m
                   (s1\<lparr>msgs := (msgs s1)(m := (msgs s1 m)\<lparr>status := - EINPROGRESS\<rparr>)\<rparr>)))"

text \<open>
  The optimize hooks of the driver.  \<open>bcm2835dma_spi_message_optimize\<close>
  compiles the message and keeps the result in \<open>state\<close>;
  \<open>bcm2835dma_spi_message_unoptimize\<close> releases that fragment (a NULL \<open>state\<close>
  is handed to \<open>dma_fragment_release\<close>, which works on the fragment it is
  given) and clears \<open>state\<close>.
\<close>

definition bcm2835dma_spi_message_optimize :: "msg_ptr \<Rightarrow> dstate \<Rightarrow> (int \<times> dstate) outcome" where
  "bcm2835dma_spi_message_optimize m s =
     (case bcm2835dma_spi_message_to_dma_fragment m 0 GFP_ATOMIC s of
        Returns (mg, t) \<Rightarrow>
          (let t1 = t\<lparr>msgs := (msgs t)(m := (msgs t m)\<lparr>state := mg\<rparr>)\<rparr>
           in if mg = None then Returns (- ENOMEM, t1) else Returns (0, t1))
      | NullDeref \<Rightarrow> NullDeref
      | OutOfFuel \<Rightarrow> OutOfFuel
      | ListCorrupt \<Rightarrow> ListCorrupt)"

definition bcm2835dma_spi_message_unoptimize :: "msg_ptr \<Rightarrow> dstate \<Rightarrow> dstate outcome" where
  "bcm2835dma_spi_message_unoptimize m s =
     (case state (msgs s m) of
        None \<Rightarrow> NullDeref
      | Some f \<Rightarrow>
          (let t = dma_fragment_release f s
           in Returns (t\<lparr>msgs := (msgs t)(m := (msgs t m)\<lparr>state := None\<rparr>)\<rparr>)))"

text \<open>
  \<open>spi_message_unoptimize\<close> and \<open>spi_message_optimize\<close> of the patch to
  drivers/spi/spi.c.  The probe function sets the two hooks of the master
  only under the module parameter \<open>use_optimize\<close>, the first argument here.
\<close>

definition spi_message_unoptimize :: "bool \<Rightarrow> msg_ptr \<Rightarrow> dstate \<Rightarrow> dstate outcome" where
  "spi_message_unoptimize use_optimize m s =
     (if \<not> is_optimized (msgs s m) then Returns s
      else
        (case (if use_optimize then bcm2835dma_spi_message_unoptimize m s else Returns s) of
           Returns t \<Rightarrow>
             Returns (t\<lparr>msgs := (msgs t)(m := (msgs t m)\<lparr>is_optimized := False\<rparr>)\<rparr>)
         | NullDeref \<Rightarrow> NullDeref
         | OutOfFuel \<Rightarrow> OutOfFuel
         | ListCorrupt \<Rightarrow> ListCorrupt))"

definition spi_message_optimize ::
  "(spi_message \<Rightarrow> int) \<Rightarrow> bool \<Rightarrow> nat \<Rightarrow> msg_ptr \<Rightarrow> dstate \<Rightarrow> (int \<times> dstate) outcome" where
  "spi_message_optimize rest use_optimize dev m s =
     (case (if is_optimized (msgs s m) then spi_message_unoptimize use_optimize m s
            else Returns s) of
        Returns s0 \<Rightarrow>
          (let s1 = s0\<lparr>msgs := (msgs s0)(m := (msgs s0 m)\<lparr>spi := dev\<rparr>)\<rparr>;
               ret = spi_verify rest (msgs s1 m)
           in if ret \<noteq> 0 then Returns (ret, s1)
              else
                (case (if use_optimize then bcm2835dma_spi_message_optimize m s1
                       else Returns (0, s1)) of
                   Returns (r, s2) \<Rightarrow>
                     if r \<noteq> 0 then Returns (r, s2)
                     else Returns (0,
                            s2\<lparr>msgs := (msgs s2)(m := (msgs s2 m)\<lparr>is_optimized := True\<rparr>)\<rparr>)
                 | NullDeref \<Rightarrow> NullDeref
                 | OutOfFuel \<Rightarrow> OutOfFuel
                 | ListCorrupt \<Rightarrow> ListCorrupt))
      | NullDeref \<Rightarrow> NullDeref
      | OutOfFuel \<Rightarrow> OutOfFuel
      | ListCorrupt \<Rightarrow> ListCorrupt)"

text \<open>
  A message can only become optimized through \<open>spi_message_optimize\<close>, which
  verifies it first; so in every state the SPI core can produce, a message
  marked optimized has transfers.
\<close>

definition optimized_verified :: "dstate \<Rightarrow> bool" where
  "optimized_verified s \<longleftrightarrow> (\<forall>m. is_optimized (msgs s m) \<longrightarrow> transfers (msgs s m) \<noteq> [])"

subsection \<open>Runs of the driver\<close>

text \<open>
  What can happen to the driver: a message is submitted, the completion
  interrupt fires, the hardware writes a memory word, or the hardware
  changes the status register of the RX channel.  The interrupt handler's
  loop gets one unit of fuel more than the queue is long.  Runs are read in
  two ways: \<open>step\<close> and \<open>run\<close> hand a compiled message straight to the
  scheduler; \<open>driver_step\<close> and \<open>drive\<close> submit through
  \<open>bcm2835dma_spi_transfer\<close>, which compiles the message first.
\<close>

datatype event =
  Submit msg_ptr
| Interrupt
| HwWrite addr u32
| HwStatus u32

definition step :: "event \<Rightarrow> dstate \<Rightarrow> dstate outcome" where
  "step e s =
     (case e of
        Submit m \<Rightarrow>
          (case bcm2835dma_schedule_dma_fragment m s of
             Returns (r, s1) \<Rightarrow> Returns s1
           | NullDeref \<Rightarrow> NullDeref
           | OutOfFuel \<Rightarrow> OutOfFuel
           | ListCorrupt \<Rightarrow> ListCorrupt)
      | Interrupt \<Rightarrow> bcm2835dma_release_cb_chain_complete (Suc (length (queue s))) s
      | HwWrite a v \<Rightarrow> Returns (s\<lparr>mem := (mem s)(a := v)\<rparr>)
      | HwStatus v \<Rightarrow> Returns (s\<lparr>dma_rx_CS := v\<rparr>))"

fun run :: "event list \<Rightarrow> dstate \<Rightarrow> dstate outcome" where
  "run [] s = Returns s"
| "run (e # es) s =
     (case step e s of
        Returns s1 \<Rightarrow> run es s1
      | NullDeref \<Rightarrow> NullDeref
      | OutOfFuel \<Rightarrow> OutOfFuel
      | ListCorrupt \<Rightarrow> ListCorrupt)"

definition driver_step :: "event \<Rightarrow> dstate \<Rightarrow> dstate outcome" where
  "driver_step e s =
     (case e of
        Submit m \<Rightarrow>
          (case bcm2835dma_spi_transfer m s of
             Returns (r, s1) \<Rightarrow> Returns s1
           | NullDeref \<Rightarrow> NullDeref
           | OutOfFuel \<Rightarrow> OutOfFuel
           | ListCorrupt \<Rightarrow> ListCorrupt)
      | Interrupt \<Rightarrow> bcm2835dma_release_cb_chain_complete (Suc (length (queue s))) s
      | HwWrite a v \<Rightarrow> Returns (s\<lparr>mem := (mem s)(a := v)\<rparr>)
      | HwStatus v \<Rightarrow> Returns (s\<lparr>dma_rx_CS := v\<rparr>))"

fun drive :: "event list \<Rightarrow> dstate \<Rightarrow> dstate outcome" where
  "drive [] s = Returns s"
| "drive (e # es) s =
     (case driver_step e s of
        Returns s1 \<Rightarrow> drive es s1
      | NullDeref \<Rightarrow> NullDeref
      | OutOfFuel \<Rightarrow> OutOfFuel
      | ListCorrupt \<Rightarrow> ListCorrupt)"

text \<open>
  The transactions in flight: the queued messages with their merged
  fragments.  A submission is accepted when \<open>bcm2835dma_spi_transfer\<close> returns
  0; \<open>accepted\<close> lists the accepted submissions of a run in order, each with
  the merged fragment it was queued with.
\<close>

definition in_flight :: "dstate \<Rightarrow> (msg_ptr \<times> frag_ptr) list" where
  "in_flight s =
     concat (map (\<lambda>m. case state (msgs s m) of None \<Rightarrow> [] | Some f \<Rightarrow> [(m, f)]) (queue s))"

definition submit_result :: "msg_ptr \<Rightarrow> dstate \<Rightarrow> (msg_ptr \<times> frag_ptr) list" where
  "submit_result m s =
     (case bcm2835dma_spi_transfer m s of
        Returns (r, s1) \<Rightarrow>
          (if r = 0 then (case state (msgs s1 m) of None \<Rightarrow> [] | Some f \<Rightarrow> [(m, f)]) else [])
      | NullDeref \<Rightarrow> []
      | OutOfFuel \<Rightarrow> []
      | ListCorrupt \<Rightarrow> [])"

fun accepted :: "event list \<Rightarrow> dstate \<Rightarrow> (msg_ptr \<times> frag_ptr) list" where
  "accepted [] s = []"
| "accepted (e # es) s =
     (case e of Submit m \<Rightarrow> submit_result m s | Interrupt \<Rightarrow> [] | HwWrite a v \<Rightarrow> []
      | HwStatus v \<Rightarrow> [])
     @ (case driver_step e s of
          Returns s1 \<Rightarrow> accepted es s1
        | NullDeref \<Rightarrow> []
        | OutOfFuel \<Rightarrow> []
        | ListCorrupt \<Rightarrow> [])"

fun submitted :: "event list \<Rightarrow> msg_ptr list" where
  "submitted [] = []"
| "submitted (Submit m # es) = m # submitted es"
| "submitted (e # es) = submitted es"

fun dequeued :: "trace_entry list \<Rightarrow> msg_ptr list" where
  "dequeued [] = []"
| "dequeued (Dequeued m # es) = m # dequeued es"
| "dequeued (e # es) = dequeued es"

text \<open>
  What the reclaim code leaves in the trace: the fragments whose post-DMA
  transforms ran, the messages whose callback was called, and for one
  message the whole block of its completion.
\<close>

fun post_transformed :: "trace_entry list \<Rightarrow> frag_ptr list" where
  "post_transformed [] = []"
| "post_transformed (PostTransforms f # es) = f # post_transformed es"
| "post_transformed (e # es) = post_transformed es"

fun called_back :: "trace_entry list \<Rightarrow> msg_ptr list" where
  "called_back [] = []"
| "called_back (CompleteCalled m # es) = m # called_back es"
| "called_back (e # es) = called_back es"

definition completion_entries :: "dstate \<Rightarrow> msg_ptr \<Rightarrow> trace_entry list" where
  "completion_entries s m =
     (case state (msgs s m) of
        None \<Rightarrow> []
      | Some f \<Rightarrow>
          [Dequeued m, PostTransforms f]
          @ (if is_optimized (msgs s m) then [] else [Released f])
          @ (if complete (msgs s m) then [CompleteCalled m] else []))"

fun hw_stays_active :: "event list \<Rightarrow> bool" where
  "hw_stays_active [] = True"
| "hw_stays_active (HwStatus v # es) = (v AND BCM2835_DMA_CS_ACTIVE \<noteq> 0 \<and> hw_stays_active es)"
| "hw_stays_active (e # es) = hw_stays_active es"

text \<open>
  A message is ready for the scheduler when its \<open>state\<close> is a merged fragment
  that points back to the message, as the compiler sets it, and has the head
  and the tail of its chain set.
\<close>

definition msg_ready :: "dstate \<Rightarrow> msg_ptr \<Rightarrow> bool" where
  "msg_ready s m =
     (case state (msgs s m) of
        None \<Rightarrow> False
      | Some f \<Rightarrow> message (merged s f) = Some m
                  \<and> link_head (frags s f) \<noteq> None \<and> link_tail (frags s f) \<noteq> None)"

text \<open>
  A queued message is pending when the sentinel test of the reclaim loop
  stops at it.
\<close>

definition msg_pending :: "dstate \<Rightarrow> msg_ptr \<Rightarrow> bool" where
  "msg_pending s m =
     (case state (msgs s m) of None \<Rightarrow> False | Some f \<Rightarrow> sentinel_pending s f)"

text \<open>
  Two states have the same chains when every message has the same merged
  fragment, every merged fragment the same back-reference and sentinel
  pointer, and the fragment heap is the same; they have the same engine
  state when the status register and the scheduler's counters agree.
\<close>

definition same_chains :: "dstate \<Rightarrow> dstate \<Rightarrow> bool" where
  "same_chains s t \<longleftrightarrow>
     (\<forall>m. state (msgs t m) = state (msgs s m))
   \<and> (\<forall>f. message (merged t f) = message (merged s f)
          \<and> complete_data (merged t f) = complete_data (merged s f))
   \<and> frags t = frags s"

definition same_engine :: "dstate \<Rightarrow> dstate \<Rightarrow> bool" where
  "same_engine s t \<longleftrightarrow> dma_rx_CS t = dma_rx_CS s
     \<and> count_dma_started t = count_dma_started s
     \<and> count_dma_still_running t = count_dma_still_running s"

text \<open>
  The scheduler may be given a message that is ready and not on the queue.
  A run of scheduler calls is well scheduled when that holds at every
  submission of the run, as far as the run gets.
\<close>

definition schedulable :: "dstate \<Rightarrow> msg_ptr \<Rightarrow> bool" where
  "schedulable s m \<longleftrightarrow> msg_ready s m \<and> m \<notin> set (queue s)"

fun well_scheduled :: "event list \<Rightarrow> dstate \<Rightarrow> bool" where
  "well_scheduled [] s = True"
| "well_scheduled (e # es) s =
     ((case e of Submit m \<Rightarrow> schedulable s m | Interrupt \<Rightarrow> True | HwWrite a v \<Rightarrow> True
       | HwStatus v \<Rightarrow> True)
      \<and> (case step e s of
           Returns s1 \<Rightarrow> well_scheduled es s1
         | NullDeref \<Rightarrow> True
         | OutOfFuel \<Rightarrow> True
         | ListCorrupt \<Rightarrow> True))"

definition queue_ready :: "dstate \<Rightarrow> bool" where
  "queue_ready s \<longleftrightarrow> distinct (queue s) \<and> list_all (msg_ready s) (queue s)"

text \<open>
  In the state \<open>t2\<close> the chain of the message \<open>lm\<close> is linked to the chain of the
  message \<open>m\<close>: the next-pointer of the tail control block of \<open>lm\<close> is the bus
  address of the head control block of \<open>m\<close> (chains as they are in \<open>t\<close>).
\<close>

definition linked_after :: "dstate \<Rightarrow> dstate \<Rightarrow> msg_ptr \<Rightarrow> msg_ptr \<Rightarrow> bool" where
  "linked_after t t2 lm m =
     (case (state (msgs t lm), state (msgs t m)) of
        (Some lf, Some f) \<Rightarrow>
          (case (link_tail (frags t lf), link_head (frags t f)) of
             (Some lt, Some h) \<Rightarrow> cb_next (links t2 lt) = cb_dma (links t h)
           | _ \<Rightarrow> False)
      | _ \<Rightarrow> False)"

text \<open>
  A pure append: the message is put at the end of the queue and linked after
  the previous tail if the queue has one; the registers of the engine and
  the count of starts are left alone.
\<close>

definition pure_append :: "dstate \<Rightarrow> msg_ptr \<Rightarrow> dstate \<Rightarrow> bool" where
  "pure_append t m t2 \<longleftrightarrow>
     queue t2 = queue t @ [m]
   \<and> dma_rx_CS t2 = dma_rx_CS t \<and> dma_rx_ADDR t2 = dma_rx_ADDR t
   \<and> count_dma_started t2 = count_dma_started t
   \<and> count_dma_still_running t2 = count_dma_still_running t + 1
   \<and> (queue t \<noteq> [] \<longrightarrow> linked_after t t2 (last (queue t)) m)"

text \<open>
  A message can be compiled without a NULL dereference when it has
  transfers and its first transfer carries payload or is the only one.  A
  message may be submitted to the driver when it is not on the queue and
  either is compiled at submission and can be, or is optimized with a
  fragment whose pre-DMA transforms succeed.  A run of the driver is well
  submitted when that holds at every submission, as far as the run gets.
\<close>

definition compilable :: "spi_message \<Rightarrow> bool" where
  "compilable msg = (case transfers msg of [] \<Rightarrow> False | x # xs \<Rightarrow> xs = [] \<or> len x \<noteq> 0)"

definition submittable :: "dstate \<Rightarrow> msg_ptr \<Rightarrow> bool" where
  "submittable s m \<longleftrightarrow>
     m \<notin> set (queue s)
   \<and> (if is_optimized (msgs s m)
      then (case state (msgs s m) of None \<Rightarrow> False | Some f \<Rightarrow> pre_transform_err s f = 0)
      else compilable (msgs s m))"

fun well_submitted :: "event list \<Rightarrow> dstate \<Rightarrow> bool" where
  "well_submitted [] s = True"
| "well_submitted (e # es) s =
     ((case e of Submit m \<Rightarrow> submittable s m | Interrupt \<Rightarrow> True | HwWrite a v \<Rightarrow> True
       | HwStatus v \<Rightarrow> True)
      \<and> (case driver_step e s of
           Returns s1 \<Rightarrow> well_submitted es s1
         | NullDeref \<Rightarrow> True
         | OutOfFuel \<Rightarrow> True
         | ListCorrupt \<Rightarrow> True))"

text \<open>
  The invariant of the driver.  Caches: an idle fragment has been allocated,
  records the cache whose idle list it is on, occurs there once, and (for
  the template caches) has the head and tail of its links set, as has every
  fragment the allocator delivers.  Splices: a fragment spliced into a
  chain has been allocated, does not belong to the cache of merged
  fragments and has its head and tail set.  Held fragments: a message that
  is optimized or on the queue has a merged fragment that points back to
  it, has been allocated, is not idle in its cache and has head and tail
  set.  The queue holds no message twice.
\<close>

definition caches_ok :: "dstate \<Rightarrow> bool" where
  "caches_ok s \<longleftrightarrow>
     (\<forall>c p. p \<in> set (idle (caches s c)) \<longrightarrow>
        p < next_frag s \<and> cache (frags s p) = Some c
        \<and> (c \<noteq> fragment_merged \<longrightarrow>
             link_head (frags s p) \<noteq> None \<and> link_tail (frags s p) \<noteq> None))
   \<and> (\<forall>c. distinct (idle (caches s c)))
   \<and> (\<forall>n fr. allocateFragment s n = Some fr \<longrightarrow>
         link_head fr \<noteq> None \<and> link_tail fr \<noteq> None)"

definition splices_ok :: "dstate \<Rightarrow> bool" where
  "splices_ok s \<longleftrightarrow>
     (\<forall>f c p x. (c, p, x) \<in> set (spliced (merged s f)) \<longrightarrow>
        p < next_frag s \<and> cache (frags s p) \<noteq> Some fragment_merged
        \<and> link_head (frags s p) \<noteq> None \<and> link_tail (frags s p) \<noteq> None)"

definition holds_fragment :: "dstate \<Rightarrow> msg_ptr \<Rightarrow> bool" where
  "holds_fragment s m \<longleftrightarrow> is_optimized (msgs s m) \<or> m \<in> set (queue s)"

definition held_ok :: "dstate \<Rightarrow> bool" where
  "held_ok s \<longleftrightarrow>
     (\<forall>m. holds_fragment s m \<longrightarrow>
        (\<exists>f. state (msgs s m) = Some f \<and> message (merged s f) = Some m
           \<and> f < next_frag s \<and> f \<notin> set (idle (caches s fragment_merged))
           \<and> link_head (frags s f) \<noteq> None \<and> link_tail (frags s f) \<noteq> None))"

definition driver_inv :: "dstate \<Rightarrow> bool" where
  "driver_inv s \<longleftrightarrow> caches_ok s \<and> splices_ok s \<and> held_ok s \<and> distinct (queue s)"

text \<open>
  Auxiliary notions for the invariant.  Two states have the same messages
  when transfers, callback and optimized flag of every message agree.  A
  fragment has its links set when head and tail are not NULL.  While the
  merged fragment \<open>mp\<close> is being compiled it has been allocated, belongs to the
  cache of merged fragments and is not idle there; and the steps of the
  compiler leave alone everything but the caches, the links, the fragments
  allocated on the way and the merged fragment itself.
\<close>

definition same_messages :: "dstate \<Rightarrow> dstate \<Rightarrow> bool" where
  "same_messages s t \<longleftrightarrow>
     (\<forall>m. transfers (msgs t m) = transfers (msgs s m)
        \<and> complete (msgs t m) = complete (msgs s m)
        \<and> is_optimized (msgs t m) = is_optimized (msgs s m))
   \<and> pre_transform_err t = pre_transform_err s"

definition links_set :: "dstate \<Rightarrow> frag_ptr \<Rightarrow> bool" where
  "links_set s f \<longleftrightarrow> link_head (frags s f) \<noteq> None \<and> link_tail (frags s f) \<noteq> None"

definition compiling :: "frag_ptr \<Rightarrow> dstate \<Rightarrow> bool" where
  "compiling mp s \<longleftrightarrow>
     caches_ok s \<and> splices_ok s \<and> mp < next_frag s
   \<and> cache (frags s mp) = Some fragment_merged
   \<and> mp \<notin> set (idle (caches s fragment_merged))"

definition compile_frame :: "frag_ptr \<Rightarrow> dstate \<Rightarrow> dstate \<Rightarrow> bool" where
  "compile_frame mp s t \<longleftrightarrow>
     next_frag s \<le> next_frag t
   \<and> msgs t = msgs s \<and> queue t = queue s \<and> trace t = trace s \<and> mem t = mem s
   \<and> pre_transform_err t = pre_transform_err s
   \<and> dma_rx_CS t = dma_rx_CS s \<and> dma_rx_ADDR t = dma_rx_ADDR s
   \<and> count_dma_started t = count_dma_started s
   \<and> count_dma_still_running t = count_dma_still_running s
   \<and> (\<forall>f. f \<noteq> mp \<longrightarrow> merged t f = merged s f)
   \<and> message (merged t mp) = message (merged s mp)
   \<and> (\<forall>q. q < next_frag s \<and> q \<noteq> mp \<longrightarrow> frags t q = frags s q)
   \<and> (\<forall>c. set (idle (caches t c)) \<subseteq> set (idle (caches s c)))"

text \<open>Reading a result off an outcome, and the lists of a cache off a state.\<close>

definition outcome_map :: "('a \<Rightarrow> 'b) \<Rightarrow> 'a outcome \<Rightarrow> 'b option" where
  "outcome_map f r =
     (case r of Returns x \<Rightarrow> Some (f x) | NullDeref \<Rightarrow> None | OutOfFuel \<Rightarrow> None
      | ListCorrupt \<Rightarrow> None)"

definition cache_active :: "cache_ptr \<Rightarrow> dstate \<Rightarrow> frag_ptr list" where
  "cache_active c s = active (caches s c)"

definition cache_idle :: "cache_ptr \<Rightarrow> dstate \<Rightarrow> frag_ptr list" where
  "cache_idle c s = idle (caches s c)"

definition cache_fetched :: "cache_ptr \<Rightarrow> dstate \<Rightarrow> u32" where
  "cache_fetched c s = count_fetched (caches s c)"

text \<open>
  The chain of a merged fragment: for every fragment spliced in, the cache it
  came from and the transfer it was spliced in for.
\<close>

definition chain_of :: "frag_ptr \<Rightarrow> dstate \<Rightarrow> (cache_ptr \<times> spi_transfer option) list" where
  "chain_of p s = map (\<lambda>(c, f, x). (c, x)) (spliced (merged s p))"

section \<open>Example states\<close>

definition cache0 :: dma_fragment_cache where
  "cache0 = \<lparr>active = [], idle = [], count_active = 0, count_idle = 0,
     count_allocated = 0, count_allocated_kernel = 0, count_fetched = 0, count_removed = 0\<rparr>"

definition merged0 :: spi_merged_dma_fragment where
  "merged0 = \<lparr>message = None, transfer = None, last_transfer = None, complete_data = None,
     needs_spi_setup = False, spliced = []\<rparr>"

definition msg0 :: spi_message where
  "msg0 = \<lparr>transfers = [], spi = 0, complete = False, is_optimized = False, status = 0,
     actual_length = 0, state = None\<rparr>"

text \<open>An allocator that always succeeds: the \<open>n\<close>-th fragment has the one link \<open>n\<close>.\<close>

definition fresh_fragment :: "nat \<Rightarrow> dma_fragment option" where
  "fresh_fragment n =
     Some \<lparr>cache = None, dma_link_list = [n], link_head = Some n, link_tail = Some n\<rparr>"

text \<open>
  The state after probing with empty caches: nothing queued, the engine
  idle, the memory zero, fragment pointers handed out from 100 on.
\<close>

definition dstate0 :: dstate where
  "dstate0 = \<lparr>caches = (\<lambda>c. cache0), frags = (\<lambda>p. dma_fragment_init),
     links = (\<lambda>l. \<lparr>cb_dma = word_of_nat l, cb_next = 0, fragment = None\<rparr>),
     allocateFragment = fresh_fragment, alloc_log = [], next_frag = 100, kmsg = [],
     merged = (\<lambda>p. merged0), msgs = (\<lambda>m. msg0), queue = [],
     dma_rx_CS = 0, dma_rx_ADDR = 0, last_message_dma_was_running = 0,
     count_dma_started = 0, count_dma_still_running = 0, count_spi_messages = 0,
     count_spi_optimized_messages = 0, mem = (\<lambda>a. 0), pre_transform_err = (\<lambda>p. 0),
     trace = []\<rparr>"

text \<open>Cache 0 with fragment 7 idle, with fragment 7 active, and a state out of memory.\<close>

definition dstate_idle7 :: dstate where
  "dstate_idle7 = dstate0\<lparr>
     caches := (\<lambda>c. cache0)(0 := cache0\<lparr>idle := [7], count_idle := 1\<rparr>),
     frags := (\<lambda>p. dma_fragment_init)(7 := dma_fragment_init\<lparr>cache := Some 0\<rparr>)\<rparr>"

definition dstate_active7 :: dstate where
  "dstate_active7 = dstate0\<lparr>
     caches := (\<lambda>c. cache0)(0 := cache0\<lparr>active := [7], count_active := 1\<rparr>),
     frags := (\<lambda>p. dma_fragment_init)(7 := dma_fragment_init\<lparr>cache := Some 0\<rparr>)\<rparr>"

definition dstate_oom :: dstate where
  "dstate_oom = dstate0\<lparr>allocateFragment := (\<lambda>n. None)\<rparr>"

text \<open>
  Two compiled messages 1 and 2 with merged fragments 10 and 11, sentinels
  at the words 40 and 42; then the states after scheduling message 1 and
  after scheduling message 2 as well.
\<close>

definition dstate_two_ready :: dstate where
  "dstate_two_ready = dstate0\<lparr>
     msgs := (\<lambda>m. msg0)(1 := msg0\<lparr>complete := True, state := Some 10\<rparr>,
                          2 := msg0\<lparr>complete := True, state := Some 11\<rparr>),
     merged := (\<lambda>p. merged0)(10 := merged0\<lparr>message := Some 1, complete_data := Some 40\<rparr>,
                              11 := merged0\<lparr>message := Some 2, complete_data := Some 42\<rparr>),
     frags := (\<lambda>p. dma_fragment_init)
                (10 := dma_fragment_init\<lparr>link_head := Some 1, link_tail := Some 2\<rparr>,
                 11 := dma_fragment_init\<lparr>link_head := Some 3, link_tail := Some 4\<rparr>)\<rparr>"

definition dstate_sched1 :: dstate where
  "dstate_sched1 = dstate_two_ready\<lparr>queue := [1], dma_rx_CS := BCM2835_DMA_CS_ACTIVE,
      dma_rx_ADDR := 1, count_dma_started := 1\<rparr>"

definition dstate_sched2 :: dstate where
  "dstate_sched2 = dstate_sched1\<lparr>queue := [1, 2],
      links := (links dstate_sched1)(2 := (links dstate_sched1 2)\<lparr>cb_next := 3\<rparr>),
      last_message_dma_was_running := 1, count_dma_still_running := 1\<rparr>"

text \<open>
  The state after both messages are scheduled, with the sentinel of message
  1 written by the hardware, and with message 1 having no sentinel at all.
\<close>

definition dstate_done1 :: dstate where
  "dstate_done1 = dstate_sched2\<lparr>mem := (\<lambda>a. 0)(40 := 5)\<rparr>"

definition dstate_no_sentinel :: dstate where
  "dstate_no_sentinel = dstate_sched2\<lparr>
      merged := (merged dstate_sched2)(10 := merged0\<lparr>message := Some 1\<rparr>)\<rparr>"

definition dequeued_of :: "dstate \<Rightarrow> msg_ptr list" where
  "dequeued_of s = dequeued (trace s)"

text \<open>
  Transfers: four bytes at 1 MHz, and transfers without payload at 1 MHz and
  at 500 kHz.
\<close>

definition xferA4 :: spi_transfer where
  "xferA4 = \<lparr>len = 4, speed_hz = 1000000, bits_per_word = 8, tx_nbits = 1, rx_nbits = 1,
     cs_change = False, delay_usecs = 0\<rparr>"

definition xferA0 :: spi_transfer where
  "xferA0 = xferA4\<lparr>len := 0\<rparr>"

definition xferB0 :: spi_transfer where
  "xferB0 = xferA4\<lparr>len := 0, speed_hz := 500000\<rparr>"

text \<open>
  A state in which the third allocation fails, holding a message with one
  transfer; a state with three messages to compile; a state with a message
  without transfers and an optimized message with one transfer, whose
  compiled fragment is 10.
\<close>

definition dstate_transfer_oom :: dstate where
  "dstate_transfer_oom = dstate0\<lparr>
     allocateFragment := (\<lambda>n. if n = 2 then None else fresh_fragment n),
     msgs := (\<lambda>m. msg0)(1 := msg0\<lparr>transfers := [xferA4], complete := True\<rparr>)\<rparr>"

definition dstate_cfg :: dstate where
  "dstate_cfg = dstate0\<lparr>
     msgs := (\<lambda>m. msg0)
       (1 := msg0\<lparr>transfers := [xferA4, xferB0, xferA4], complete := True\<rparr>,
        2 := msg0\<lparr>transfers := [xferA0, xferA4], complete := True\<rparr>,
        3 := msg0\<lparr>transfers := [xferA4, xferA4]\<rparr>)\<rparr>"

definition dstate_empty_msg :: dstate where
  "dstate_empty_msg = dstate0\<lparr>
     msgs := (\<lambda>m. msg0)
       (1 := msg0\<lparr>complete := True\<rparr>,
        2 := msg0\<lparr>transfers := [xferA4], complete := True, is_optimized := True,
                  state := Some 10\<rparr>),
     merged := (\<lambda>p. merged0)(10 := merged0\<lparr>message := Some 2\<rparr>),
     frags := (\<lambda>p. dma_fragment_init)
                (10 := dma_fragment_init\<lparr>link_head := Some 1, link_tail := Some 2\<rparr>)\<rparr>"

text \<open>
  A state of the running driver: message 1 is on the queue with its merged
  fragment 10 and the sentinel at word 40, the engine is active; message 1
  and message 3 have one transfer of four bytes and a callback.  The events:
  message 3 is submitted, the interrupt fires before and after the hardware
  writes the sentinel of message 1, then message 1 is submitted again and
  the interrupt fires once more.
\<close>

definition dstate_running :: dstate where
  "dstate_running = dstate_sched1\<lparr>
     msgs := (msgs dstate_sched1)
       (1 := (msgs dstate_sched1 1)\<lparr>transfers := [xferA4]\<rparr>,
        3 := msg0\<lparr>transfers := [xferA4], complete := True\<rparr>)\<rparr>"

definition resubmit_events :: "event list" where
  "resubmit_events = [Submit 3, Interrupt, HwWrite 40 5, Interrupt, Submit 1, Interrupt]"

section \<open>Properties of the fragment layer\<close>

lemmas example_defs = dstate_two_ready_def dstate0_def msg0_def merged0_def cache0_def
  dma_fragment_init_def fresh_fragment_def dstate_sched1_def dstate_sched2_def
  dstate_idle7_def dstate_active7_def dstate_oom_def

text \<open>
  C9.  After \<open>dma_fragment_add_dma_link\<close> the link's back-reference is the
  fragment it was added to, and the link is on that fragment's list.
  Consequently, when every listed link points back to its fragment and the
  added link is on no list yet, every listed link still points back to its
  fragment afterwards.
\<close>

theorem add_dma_link_back_reference:
  "fragment (links (dma_fragment_add_dma_link f l s) l) = Some f
   \<and> l \<in> set (dma_link_list (frags (dma_fragment_add_dma_link f l s) f))
   \<and> (links_point_back s \<and> \<not> link_listed s l
        \<longrightarrow> links_point_back (dma_fragment_add_dma_link f l s))"
  by (auto simp: dma_fragment_add_dma_link_def links_point_back_def link_listed_def)

theorem add_dma_link_back_reference_witness:
  "links_point_back dstate0 \<and> \<not> link_listed dstate0 5
   \<and> links_point_back (dma_fragment_add_dma_link 1 5 dstate0)
   \<and> fragment (links (dma_fragment_add_dma_link 1 5 dstate0) 5) = Some 1"
  using add_dma_link_back_reference [of 1 5 dstate0]
  by (simp add: links_point_back_def link_listed_def dstate0_def dma_fragment_init_def)

text \<open>
  C10.  Every call of \<open>dma_fragment_cache_fetch\<close> increments \<open>count_fetched\<close>
  of the cache by exactly one, whatever the outcome: a fragment taken from
  the idle list, a fragment freshly allocated, or NULL after a failed
  allocation.
\<close>

theorem cache_fetch_counts_attempts:
  "count_fetched (caches (snd (dma_fragment_cache_fetch c g s)) c)
     = count_fetched (caches s c) + 1"
  by (auto simp: dma_fragment_cache_fetch_def cache_fetch_locked_def dma_fragment_cache_add_def
       Let_def split: list.splits option.splits prod.splits)

text \<open>
  C6.  \<open>dma_fragment_cache_fetch\<close>: with a non-empty idle list the first idle
  fragment moves to the head of the active list and is returned; with an
  empty idle list one allocation is attempted with the caller's flags and
  the new fragment goes to the active list, or NULL is returned when the
  allocation fails.  One more allocation, into the idle list, is attempted
  exactly when the flags are \<open>GFP_KERNEL\<close> and the idle list is empty after
  the first step.  Every allocation attempted carries the caller's flags, so
  a caller whose flags do not allow sleeping causes no sleeping allocation.
\<close>

theorem cache_fetch_behaviour:
  assumes "dma_fragment_cache_fetch c g s = (r, s')"
  shows "(\<forall>p rest. idle (caches s c) = p # rest \<longrightarrow>
            r = Some p \<and> active (caches s' c) = p # active (caches s c))
       \<and> (idle (caches s c) = [] \<longrightarrow>
            (case allocateFragment s (length (alloc_log s)) of
               None \<Rightarrow> r = None \<and> active (caches s' c) = active (caches s c)
             | Some fr \<Rightarrow> r = Some (next_frag s)
                 \<and> active (caches s' c) = next_frag s # active (caches s c)))
       \<and> alloc_log s' = alloc_log s @
            replicate ((if idle (caches s c) = [] then 1 else 0)
                       + (if g = GFP_KERNEL \<and> length (idle (caches s c)) \<le> 1 then 1 else 0)) g
       \<and> (g \<noteq> GFP_KERNEL \<or> 1 < length (idle (caches s c)) \<longrightarrow>
            idle (caches s' c) = drop 1 (idle (caches s c)))
       \<and> (g = GFP_KERNEL \<and> length (idle (caches s c)) \<le> 1 \<longrightarrow>
            idle (caches s' c) =
              (case allocateFragment s (length (alloc_log s') - 1) of
                 None \<Rightarrow> []
               | Some fr \<Rightarrow> [next_frag s' - 1]))
       \<and> (\<not> gfp_may_sleep g \<longrightarrow>
            (\<forall>g' \<in> set (drop (length (alloc_log s)) (alloc_log s')). \<not> gfp_may_sleep g'))"
  using assms
  apply (cases "idle (caches s c)")
  subgoal
    by (auto simp: dma_fragment_cache_fetch_def cache_fetch_locked_def dma_fragment_cache_add_def
       Let_def DMA_FRAGMENT_CACHE_TO_IDLE_def DMA_FRAGMENT_CACHE_TO_ACTIVE_def
       split: option.splits prod.splits if_splits)
  subgoal for p rest
    by (auto simp: dma_fragment_cache_fetch_def cache_fetch_locked_def dma_fragment_cache_add_def
       Let_def DMA_FRAGMENT_CACHE_TO_IDLE_def DMA_FRAGMENT_CACHE_TO_ACTIVE_def
       split: option.splits prod.splits if_splits)
  done

theorem cache_fetch_behaviour_witness:
  "idle (caches dstate_idle7 0) = [7]
   \<and> fst (dma_fragment_cache_fetch 0 GFP_KERNEL dstate_idle7) = Some 7
   \<and> active (caches (snd (dma_fragment_cache_fetch 0 GFP_KERNEL dstate_idle7)) 0) = [7]
   \<and> idle (caches (snd (dma_fragment_cache_fetch 0 GFP_KERNEL dstate_idle7)) 0) = [100]
   \<and> alloc_log (snd (dma_fragment_cache_fetch 0 GFP_KERNEL dstate_idle7)) = [GFP_KERNEL]
   \<and> idle (caches dstate_oom 0) = [] \<and> \<not> gfp_may_sleep GFP_ATOMIC
   \<and> fst (dma_fragment_cache_fetch 0 GFP_ATOMIC dstate_oom) = None
   \<and> active (caches (snd (dma_fragment_cache_fetch 0 GFP_ATOMIC dstate_oom)) 0) = []
   \<and> idle (caches (snd (dma_fragment_cache_fetch 0 GFP_ATOMIC dstate_oom)) 0) = []
   \<and> alloc_log (snd (dma_fragment_cache_fetch 0 GFP_ATOMIC dstate_oom)) = [GFP_ATOMIC]"
proof -
  have a: "dma_fragment_cache_fetch 0 GFP_KERNEL dstate_idle7
            = (fst (dma_fragment_cache_fetch 0 GFP_KERNEL dstate_idle7),
               snd (dma_fragment_cache_fetch 0 GFP_KERNEL dstate_idle7))"
    by simp
  have b: "dma_fragment_cache_fetch 0 GFP_ATOMIC dstate_oom
            = (fst (dma_fragment_cache_fetch 0 GFP_ATOMIC dstate_oom),
               snd (dma_fragment_cache_fetch 0 GFP_ATOMIC dstate_oom))"
    by simp
  have i: "idle (caches dstate_idle7 0) = [7]" "idle (caches dstate_oom 0) = []"
    "allocateFragment dstate_idle7 0 = fresh_fragment 0"
    "allocateFragment dstate_oom 0 = None"
    "alloc_log dstate_idle7 = []" "alloc_log dstate_oom = []"
    "active (caches dstate_idle7 0) = []" "active (caches dstate_oom 0) = []"
    by (simp_all add: dstate_idle7_def dstate_oom_def dstate0_def cache0_def)
  have n: "next_frag (snd (dma_fragment_cache_fetch 0 GFP_KERNEL dstate_idle7)) = 101"
    by (simp add: dma_fragment_cache_fetch_def cache_fetch_locked_def dma_fragment_cache_add_def
          Let_def dstate_idle7_def dstate0_def cache0_def fresh_fragment_def)
  have g: "\<not> gfp_may_sleep GFP_ATOMIC" "GFP_ATOMIC \<noteq> GFP_KERNEL"
    by (simp_all add: gfp_may_sleep_def GFP_KERNEL_def GFP_ATOMIC_def GFP_WAIT_def)
  show ?thesis
    using cache_fetch_behaviour [OF a] cache_fetch_behaviour [OF b] i n g
    by (simp add: fresh_fragment_def)
qed

text \<open>
  C8, as amended.  \<open>dma_fragment_cache_return\<close> on a fragment that records an
  owning cache unlinks the fragment from whatever cache list it is on and
  puts it at the head of the idle list of the owning cache, increments the
  idle count and decrements the active count of that cache; nothing is
  logged and the fragments do not change.  If the fragment was on the
  active list of the owning cache it has moved from active to idle; if it
  was not on the idle list, the idle list has grown by it.  Any other cache
  loses the fragment from its lists, and is unchanged when the fragment was
  on none of them.  On a fragment without an owning cache one line is logged
  and neither the caches nor the fragments change; the call returns in both
  cases.
\<close>

theorem cache_return_relinks_or_logs:
  "(cache (frags s p) = Some c \<longrightarrow>
      idle (caches (dma_fragment_cache_return p s) c) = p # removeAll p (idle (caches s c))
    \<and> active (caches (dma_fragment_cache_return p s) c) = removeAll p (active (caches s c))
    \<and> count_idle (caches (dma_fragment_cache_return p s) c) = count_idle (caches s c) + 1
    \<and> count_active (caches (dma_fragment_cache_return p s) c) = count_active (caches s c) - 1
    \<and> (p \<in> set (active (caches s c)) \<longrightarrow>
          p \<notin> set (active (caches (dma_fragment_cache_return p s) c))
        \<and> p \<in> set (idle (caches (dma_fragment_cache_return p s) c)))
    \<and> (p \<notin> set (idle (caches s c)) \<longrightarrow>
          idle (caches (dma_fragment_cache_return p s) c) = p # idle (caches s c))
    \<and> (\<forall>d. d \<noteq> c \<longrightarrow>
          caches (dma_fragment_cache_return p s) d = list_del_frag p (caches s) d)
    \<and> (\<forall>d. d \<noteq> c \<and> p \<notin> set (active (caches s d)) \<and> p \<notin> set (idle (caches s d)) \<longrightarrow>
          caches (dma_fragment_cache_return p s) d = caches s d)
    \<and> frags (dma_fragment_cache_return p s) = frags s
    \<and> kmsg (dma_fragment_cache_return p s) = kmsg s)
   \<and> (cache (frags s p) = None \<longrightarrow>
      caches (dma_fragment_cache_return p s) = caches s
    \<and> frags (dma_fragment_cache_return p s) = frags s
    \<and> kmsg (dma_fragment_cache_return p s) = kmsg s @
         [''dma_fragment_cache_return: fragment not in a cache, so not returning''])"
  by (simp add: dma_fragment_cache_return_def list_del_frag_def Let_def)

theorem cache_return_relinks_or_logs_witness:
  "cache (frags dstate_active7 7) = Some 0
   \<and> active (caches dstate_active7 0) = [7] \<and> idle (caches dstate_active7 0) = []
   \<and> idle (caches (dma_fragment_cache_return 7 dstate_active7) 0) = [7]
   \<and> active (caches (dma_fragment_cache_return 7 dstate_active7) 0) = []
   \<and> count_idle (caches (dma_fragment_cache_return 7 dstate_active7) 0) = 1
   \<and> count_active (caches (dma_fragment_cache_return 7 dstate_active7) 0) = 0
   \<and> caches (dma_fragment_cache_return 7 dstate_active7) 1 = caches dstate_active7 1
   \<and> cache (frags dstate_active7 3) = None
   \<and> caches (dma_fragment_cache_return 3 dstate_active7) = caches dstate_active7
   \<and> length (kmsg (dma_fragment_cache_return 3 dstate_active7)) = 1"
proof -
  have a: "cache (frags dstate_active7 7) = Some 0" "cache (frags dstate_active7 3) = None"
    "active (caches dstate_active7 0) = [7]" "idle (caches dstate_active7 0) = []"
    "count_idle (caches dstate_active7 0) = 0" "count_active (caches dstate_active7 0) = 1"
    "kmsg dstate_active7 = []"
    "7 \<notin> set (active (caches dstate_active7 1))" "7 \<notin> set (idle (caches dstate_active7 1))"
    by (simp_all add: example_defs)
  note t = cache_return_relinks_or_logs [of dstate_active7 7 0]
  from t a(1) have "(1::nat) \<noteq> 0 \<and> 7 \<notin> set (active (caches dstate_active7 1))
        \<and> 7 \<notin> set (idle (caches dstate_active7 1)) \<longrightarrow>
      caches (dma_fragment_cache_return 7 dstate_active7) 1 = caches dstate_active7 1"
    by blast
  with a have b: "caches (dma_fragment_cache_return 7 dstate_active7) 1 = caches dstate_active7 1"
    by simp
  from t a(1) have c: "idle (caches (dma_fragment_cache_return 7 dstate_active7) 0)
        = 7 # removeAll 7 (idle (caches dstate_active7 0))"
    "active (caches (dma_fragment_cache_return 7 dstate_active7) 0)
        = removeAll 7 (active (caches dstate_active7 0))"
    "count_idle (caches (dma_fragment_cache_return 7 dstate_active7) 0)
        = count_idle (caches dstate_active7 0) + 1"
    "count_active (caches (dma_fragment_cache_return 7 dstate_active7) 0)
        = count_active (caches dstate_active7 0) - 1"
    by blast+
  from cache_return_relinks_or_logs [of dstate_active7 3 0] a(2)
  have d: "caches (dma_fragment_cache_return 3 dstate_active7) = caches dstate_active7"
    "kmsg (dma_fragment_cache_return 3 dstate_active7) = kmsg dstate_active7 @
         [''dma_fragment_cache_return: fragment not in a cache, so not returning'']"
    by blast+
  from a b c d show ?thesis by simp
qed

text \<open>
  C8 as stated fails for a fragment that records its cache but is not on
  the active list: returning the idle fragment 7 of cache 0, which was never
  fetched, is accepted without a log line; nothing moves from the active
  list, and the counters become -1 active and 2 idle for the one fragment.
\<close>

theorem cache_return_of_idle_fragment_counterexample:
  "cache (frags dstate_idle7 7) = Some 0
   \<and> active (caches dstate_idle7 0) = [] \<and> idle (caches dstate_idle7 0) = [7]
   \<and> count_active (caches dstate_idle7 0) = 0 \<and> count_idle (caches dstate_idle7 0) = 1
   \<and> active (caches (dma_fragment_cache_return 7 dstate_idle7) 0) = []
   \<and> idle (caches (dma_fragment_cache_return 7 dstate_idle7) 0) = [7]
   \<and> count_active (caches (dma_fragment_cache_return 7 dstate_idle7) 0) = - 1
   \<and> count_idle (caches (dma_fragment_cache_return 7 dstate_idle7) 0) = 2
   \<and> kmsg (dma_fragment_cache_return 7 dstate_idle7) = []"
  by (simp add: dma_fragment_cache_return_def list_del_frag_def Let_def example_defs)

section \<open>Frame lemmas of the driver and the completion sentinel\<close>

lemma dequeued_append: "dequeued (xs @ ys) = dequeued xs @ dequeued ys"
  by (induction xs rule: dequeued.induct) simp_all

lemma cache_return_frame:
  "frags (dma_fragment_cache_return p s) = frags s"
  "links (dma_fragment_cache_return p s) = links s"
  "kstate.more (dma_fragment_cache_return p s) = kstate.more s"
  by (simp_all add: dma_fragment_cache_return_def Let_def split: option.splits)

lemma cache_return_dstate:
  fixes s :: dstate
  shows "merged (dma_fragment_cache_return p s) = merged s"
    "msgs (dma_fragment_cache_return p s) = msgs s"
    "queue (dma_fragment_cache_return p s) = queue s"
    "mem (dma_fragment_cache_return p s) = mem s"
    "trace (dma_fragment_cache_return p s) = trace s"
    "dma_rx_CS (dma_fragment_cache_return p s) = dma_rx_CS s"
    "count_dma_started (dma_fragment_cache_return p s) = count_dma_started s"
    "count_dma_still_running (dma_fragment_cache_return p s) = count_dma_still_running s"
  by (simp_all add: dma_fragment_cache_return_def Let_def split: option.splits)

lemma fold_return_frame:
  fixes s :: dstate
  shows "frags (fold (\<lambda>(c, p, x). dma_fragment_cache_return p) xs s) = frags s
   \<and> merged (fold (\<lambda>(c, p, x). dma_fragment_cache_return p) xs s) = merged s
   \<and> msgs (fold (\<lambda>(c, p, x). dma_fragment_cache_return p) xs s) = msgs s
   \<and> queue (fold (\<lambda>(c, p, x). dma_fragment_cache_return p) xs s) = queue s
   \<and> mem (fold (\<lambda>(c, p, x). dma_fragment_cache_return p) xs s) = mem s
   \<and> trace (fold (\<lambda>(c, p, x). dma_fragment_cache_return p) xs s) = trace s
   \<and> dma_rx_CS (fold (\<lambda>(c, p, x). dma_fragment_cache_return p) xs s) = dma_rx_CS s
   \<and> count_dma_started (fold (\<lambda>(c, p, x). dma_fragment_cache_return p) xs s)
       = count_dma_started s
   \<and> count_dma_still_running (fold (\<lambda>(c, p, x). dma_fragment_cache_return p) xs s)
       = count_dma_still_running s"
  by (induction xs arbitrary: s)
     (simp_all add: cache_return_frame cache_return_dstate split: prod.splits)

lemma release_frame:
  "frags (dma_fragment_release f s) = frags s"
  "msgs (dma_fragment_release f s) = msgs s"
  "queue (dma_fragment_release f s) = queue s"
  "mem (dma_fragment_release f s) = mem s"
  "trace (dma_fragment_release f s) = trace s @ [Released f]"
  "message (merged (dma_fragment_release f s) g) = message (merged s g)"
  "complete_data (merged (dma_fragment_release f s) g) = complete_data (merged s g)"
  "dma_rx_CS (dma_fragment_release f s) = dma_rx_CS s"
  "count_dma_started (dma_fragment_release f s) = count_dma_started s"
  "count_dma_still_running (dma_fragment_release f s) = count_dma_still_running s"
  by (simp_all add: dma_fragment_release_def Let_def fold_return_frame cache_return_frame
        cache_return_dstate)

lemma release_message_ok:
  assumes "message (merged s f) = Some m"
  shows "\<exists>s1. release_message m f s = Returns s1
     \<and> queue s1 = removeAll m (queue s)
     \<and> dequeued (trace s1) = dequeued (trace s) @ [m]
     \<and> same_chains s s1 \<and> mem s1 = mem s
     \<and> dma_rx_CS s1 = dma_rx_CS s
     \<and> count_dma_started s1 = count_dma_started s
     \<and> count_dma_still_running s1 = count_dma_still_running s"
  using assms
  by (simp add: release_message_def Let_def release_frame dequeued_append same_chains_def)



lemma release_message_trace:
  assumes "message (merged s f) = Some m"
  shows "\<exists>s1. release_message m f s = Returns s1
     \<and> status (msgs s1 m) = 0 \<and> actual_length (msgs s1 m) = 1
     \<and> PostTransforms f \<in> set (trace s1)
     \<and> (complete (msgs s m) \<longrightarrow> CompleteCalled m \<in> set (trace s1))
     \<and> (\<not> is_optimized (msgs s m) \<longrightarrow> Released f \<in> set (trace s1))"
  using assms
  by (simp add: release_message_def Let_def release_frame)

text \<open>
  C2 (as amended).  For the head of the queue, whose merged fragment points
  back to it: when the sentinel pointer is set and both sentinel words are
  zero, the reclaim loop returns at once and leaves the state as it is; when
  the sentinel pointer is set and a word is not zero, or when no sentinel
  pointer is set, the head is taken off the queue and processed (status
  reset, post-DMA transforms, release unless optimized, callback if set),
  and the loop goes on with the next head.
\<close>

theorem sentinel_decides_head:
  assumes "queue s = m # rest" "state (msgs s m) = Some f" "message (merged s f) = Some m"
  shows "(\<forall>a. complete_data (merged s f) = Some a \<and> mem s a = 0 \<and> mem s (Suc a) = 0 \<longrightarrow>
            bcm2835dma_release_cb_chain_complete (Suc n) s = Returns s)
     \<and> (complete_data (merged s f) = None
          \<or> (\<exists>a. complete_data (merged s f) = Some a \<and> \<not> (mem s a = 0 \<and> mem s (Suc a) = 0)) \<longrightarrow>
            (\<exists>s1. release_message m f s = Returns s1
               \<and> bcm2835dma_release_cb_chain_complete (Suc n) s
                   = bcm2835dma_release_cb_chain_complete n s1
               \<and> queue s1 = removeAll m rest
               \<and> dequeued (trace s1) = dequeued (trace s) @ [m]
               \<and> status (msgs s1 m) = 0
               \<and> PostTransforms f \<in> set (trace s1)
               \<and> (complete (msgs s m) \<longrightarrow> CompleteCalled m \<in> set (trace s1))
               \<and> (\<not> is_optimized (msgs s m) \<longrightarrow> Released f \<in> set (trace s1))))"
proof (intro conjI allI impI)
  fix a
  assume "complete_data (merged s f) = Some a \<and> mem s a = 0 \<and> mem s (Suc a) = 0"
  then show "bcm2835dma_release_cb_chain_complete (Suc n) s = Returns s"
    using assms by (simp add: sentinel_pending_def)
next
  assume h: "complete_data (merged s f) = None
          \<or> (\<exists>a. complete_data (merged s f) = Some a \<and> \<not> (mem s a = 0 \<and> mem s (Suc a) = 0))"
  then have np: "\<not> sentinel_pending s f"
    by (auto simp: sentinel_pending_def)
  from release_message_ok [OF assms(3)] release_message_trace [OF assms(3)]
  obtain s1 where s1: "release_message m f s = Returns s1"
      "queue s1 = removeAll m (queue s)" "dequeued (trace s1) = dequeued (trace s) @ [m]"
      "status (msgs s1 m) = 0" "PostTransforms f \<in> set (trace s1)"
      "complete (msgs s m) \<longrightarrow> CompleteCalled m \<in> set (trace s1)"
      "\<not> is_optimized (msgs s m) \<longrightarrow> Released f \<in> set (trace s1)"
    by auto
  have "bcm2835dma_release_cb_chain_complete (Suc n) s
          = bcm2835dma_release_cb_chain_complete n s1"
    using assms np s1(1) by simp
  moreover have "queue s1 = removeAll m rest" using s1(2) assms(1) by simp
  ultimately show "\<exists>s1. release_message m f s = Returns s1
               \<and> bcm2835dma_release_cb_chain_complete (Suc n) s
                   = bcm2835dma_release_cb_chain_complete n s1
               \<and> queue s1 = removeAll m rest
               \<and> dequeued (trace s1) = dequeued (trace s) @ [m]
               \<and> status (msgs s1 m) = 0
               \<and> PostTransforms f \<in> set (trace s1)
               \<and> (complete (msgs s m) \<longrightarrow> CompleteCalled m \<in> set (trace s1))
               \<and> (\<not> is_optimized (msgs s m) \<longrightarrow> Released f \<in> set (trace s1))"
    using s1 by blast
qed

lemmas example_defs2 = example_defs dstate_done1_def dstate_no_sentinel_def

lemmas reclaim_defs = release_message_def dma_fragment_release_def dma_fragment_cache_return_def
  list_del_frag_def
  sentinel_pending_def Let_def outcome_map_def dequeued_of_def

theorem sentinel_decides_head_witness:
  "queue dstate_sched2 = [1, 2] \<and> state (msgs dstate_sched2 1) = Some 10
   \<and> message (merged dstate_sched2 10) = Some 1
   \<and> complete_data (merged dstate_sched2 10) = Some 40
   \<and> mem dstate_sched2 40 = 0 \<and> mem dstate_sched2 (Suc 40) = 0
   \<and> bcm2835dma_release_cb_chain_complete (Suc 2) dstate_sched2 = Returns dstate_sched2
   \<and> queue dstate_done1 = [1, 2] \<and> state (msgs dstate_done1 1) = Some 10
   \<and> message (merged dstate_done1 10) = Some 1
   \<and> complete_data (merged dstate_done1 10) = Some 40
   \<and> mem dstate_done1 40 = 5
   \<and> outcome_map queue (release_message 1 10 dstate_done1) = Some [2]
   \<and> outcome_map dequeued_of (release_message 1 10 dstate_done1) = Some [1]"
proof -
  have a: "queue dstate_sched2 = [1, 2]" "state (msgs dstate_sched2 1) = Some 10"
    "message (merged dstate_sched2 10) = Some 1"
    "complete_data (merged dstate_sched2 10) = Some 40"
    "mem dstate_sched2 40 = 0" "mem dstate_sched2 (Suc 40) = 0"
    by (simp_all add: example_defs2)
  have b: "queue dstate_done1 = [1, 2]" "state (msgs dstate_done1 1) = Some 10"
    "message (merged dstate_done1 10) = Some 1"
    "complete_data (merged dstate_done1 10) = Some 40"
    "mem dstate_done1 40 = 5" "trace dstate_done1 = []"
    by (simp_all add: example_defs2)
  from sentinel_decides_head [OF a(1-3), of 2] a(4-6)
  have c: "bcm2835dma_release_cb_chain_complete (Suc 2) dstate_sched2 = Returns dstate_sched2"
    by blast
  have "\<exists>a. complete_data (merged dstate_done1 10) = Some a
          \<and> \<not> (mem dstate_done1 a = 0 \<and> mem dstate_done1 (Suc a) = 0)"
    using b(4,5) by simp
  with sentinel_decides_head [OF b(1-3), of 0]
  obtain s1 where s1: "release_message 1 10 dstate_done1 = Returns s1"
      "queue s1 = removeAll 1 [2]" "dequeued (trace s1) = dequeued (trace dstate_done1) @ [1]"
    by blast
  then have d: "outcome_map queue (release_message 1 10 dstate_done1) = Some [2]"
    "outcome_map dequeued_of (release_message 1 10 dstate_done1) = Some [1]"
    using b(6) by (simp_all add: outcome_map_def dequeued_of_def)
  from a b(1-5) c d show ?thesis by blast
qed

text \<open>
  C2 as stated fails for a head without a sentinel pointer: no sentinel
  word is read, all memory is zero, and the head is dequeued all the same.
\<close>

theorem missing_sentinel_counterexample:
  "queue dstate_no_sentinel = [1, 2]
   \<and> state (msgs dstate_no_sentinel 1) = Some 10
   \<and> complete_data (merged dstate_no_sentinel 10) = None
   \<and> outcome_map queue
        (bcm2835dma_release_cb_chain_complete (Suc (Suc (Suc 0))) dstate_no_sentinel) = Some [2]
   \<and> outcome_map dequeued_of
        (bcm2835dma_release_cb_chain_complete (Suc (Suc (Suc 0))) dstate_no_sentinel) = Some [1]"
  by (simp add: reclaim_defs example_defs2)

section \<open>The compiler sets the back-reference\<close>

lemma cache_add_more:
  "dma_fragment_cache_add c g fl s = (r, s') \<Longrightarrow> kstate.more s' = kstate.more s"
  by (auto simp: dma_fragment_cache_add_def Let_def split: option.splits)

lemma cache_fetch_more:
  assumes "dma_fragment_cache_fetch c g s = (r, s')"
  shows "kstate.more s' = kstate.more s"
proof -
  obtain f0 e ch where l: "cache_fetch_locked (caches s c) = (f0, e, ch)"
    by (metis prod_cases3)
  obtain fr s2 where a: "(case f0 of
               None \<Rightarrow> dma_fragment_cache_add c g DMA_FRAGMENT_CACHE_TO_ACTIVE
                         (s\<lparr>caches := (caches s)(c := ch)\<rparr>)
             | Some p \<Rightarrow> (Some p, s\<lparr>caches := (caches s)(c := ch)\<rparr>)) = (fr, s2)"
    by (metis surj_pair)
  have m2: "kstate.more s2 = kstate.more s"
    using a by (cases f0) (auto dest: cache_add_more)
  obtain r3 s3 where b: "dma_fragment_cache_add c g DMA_FRAGMENT_CACHE_TO_IDLE s2 = (r3, s3)"
    by (metis surj_pair)
  have "s' = (if g = GFP_KERNEL \<and> e then s3 else s2)"
    using assms l a b by (auto simp: dma_fragment_cache_fetch_def Let_def)
  then show ?thesis using m2 cache_add_more [OF b] by simp
qed

lemma cache_fetch_dstate:
  fixes s :: dstate
  assumes "dma_fragment_cache_fetch c g s = (r, s')"
  shows "merged s' = merged s \<and> msgs s' = msgs s \<and> queue s' = queue s"
  using cache_fetch_more [OF assms]
  by (cases s, cases s') simp

lemma merge_fragment_cache_message:
  assumes "spi_merged_dma_fragment_merge_fragment_cache c mp g s = (e, s')"
  shows "message (merged s' f) = message (merged s f) \<and> msgs s' = msgs s \<and> queue s' = queue s"
proof -
  obtain r s1 where a: "dma_fragment_cache_fetch c g s = (r, s1)" by (metis surj_pair)
  from cache_fetch_dstate [OF a] assms a show ?thesis
    by (cases r)
       (auto simp: spi_merged_dma_fragment_merge_fragment_cache_def Let_def split: option.splits)
qed

lemma merge_one_transfer_message:
  assumes "merge_one_transfer mp g x l s = (e, s')"
  shows "message (merged s' f) = message (merged s f) \<and> msgs s' = msgs s \<and> queue s' = queue s"
  using assms
  by (auto simp: merge_one_transfer_def Let_def split: prod.splits if_splits
        dest!: merge_fragment_cache_message [where f = f])

lemma merge_transfers_message:
  assumes "merge_transfers mp g xs s = Returns (e, s')"
  shows "message (merged s' f) = message (merged s f) \<and> msgs s' = msgs s \<and> queue s' = queue s"
  using assms
proof (induction xs arbitrary: s)
  case Nil
  then show ?case by simp
next
  case (Cons x xs)
  define s0 where "s0 = s\<lparr>merged := (merged s)(mp := (merged s mp)\<lparr>transfer := Some x\<rparr>)\<rparr>"
  from Cons.prems obtain mg where mg: "reconfigure_check (merged s0 mp) x = Returns mg"
    by (auto simp: s0_def Let_def split: outcome.splits)
  then have mgm: "message mg = message (merged s mp)"
    by (auto simp: reconfigure_check_def s0_def split: if_splits option.splits)
  define sa where "sa = s0\<lparr>merged := (merged s0)(mp := mg)\<rparr>"
  obtain e1 s1 where s1: "merge_one_transfer mp g x (xs = []) sa = (e1, s1)" by (metis surj_pair)
  have base: "message (merged sa f) = message (merged s f) \<and> msgs sa = msgs s \<and> queue sa = queue s"
    using mgm by (simp add: sa_def s0_def)
  note one = merge_one_transfer_message [OF s1, of f]
  show ?case
  proof (cases "e1 = 0")
    case True
    with Cons.prems mg s1 have "merge_transfers mp g xs s1 = Returns (e, s')"
      by (simp add: s0_def sa_def Let_def)
    from Cons.IH [OF this] one base show ?thesis by simp
  next
    case False
    with Cons.prems mg s1 have "s' = s1" by (simp add: s0_def sa_def Let_def)
    with one base show ?thesis by simp
  qed
qed

text \<open>
  A merged fragment that the compiler returns points back to the message it
  was compiled for; compiling changes neither the messages nor the queue.
\<close>

lemma compile_sets_back_reference:
  assumes "bcm2835dma_spi_message_to_dma_fragment m fl g s = Returns (Some mp, s')"
  shows "message (merged s' mp) = Some m \<and> msgs s' = msgs s \<and> queue s' = queue s"
proof -
  obtain r s1 where a: "dma_fragment_cache_fetch fragment_merged g s = (r, s1)"
    by (metis surj_pair)
  note f1 = cache_fetch_dstate [OF a]
  from assms a obtain p where r: "r = Some p"
    by (cases r) (auto simp: bcm2835dma_spi_message_to_dma_fragment_def)
  define s2 where "s2 = s1\<lparr>merged := (merged s1)(p :=
                         (merged s1 p)\<lparr>message := Some m, transfer := None,
                            last_transfer := None, complete_data := None,
                            needs_spi_setup := True\<rparr>),
                       frags := (frags s1)(p :=
                         (frags s1 p)\<lparr>link_head := None, link_tail := None\<rparr>)\<rparr>"
  from assms a r obtain e3 s3 where
    m3: "merge_transfers p g (transfers (msgs s2 m)) s2 = Returns (e3, s3)"
    by (auto simp: bcm2835dma_spi_message_to_dma_fragment_def Let_def s2_def
          split: outcome.splits)
  from assms a r m3 have e3: "e3 = 0"
    by (auto simp: bcm2835dma_spi_message_to_dma_fragment_def Let_def s2_def
          message_to_dma_fragment_error_def split: if_splits)
  obtain e4 s4 where m4: "(if complete (msgs s3 m)
                           then spi_merged_dma_fragment_merge_fragment_cache
                                  fragment_trigger_irq p g s3
                           else (0, s3)) = (e4, s4)" by (metis surj_pair)
  have f4: "message (merged s4 p) = message (merged s3 p) \<and> msgs s4 = msgs s3
      \<and> queue s4 = queue s3"
    using m4 by (auto split: if_splits dest: merge_fragment_cache_message [where f = p])
  from assms a r m3 e3 m4 have fin: "mp = p" "s' = s4\<lparr>merged := (merged s4)(p :=
                                     (merged s4 p)\<lparr>transfer := None, last_transfer := None\<rparr>)\<rparr>"
    by (auto simp: bcm2835dma_spi_message_to_dma_fragment_def Let_def s2_def
          message_to_dma_fragment_error_def split: if_splits)
  from merge_transfers_message [OF m3, of p] f4 f1 fin show ?thesis
    by (simp add: s2_def)
qed

section \<open>Compiling and submitting on concrete inputs\<close>

lemmas compile_defs = bcm2835dma_spi_message_to_dma_fragment_def merge_one_transfer_def
  reconfigure_check_def spi_merged_dma_fragment_merge_fragment_cache_def
  message_to_dma_fragment_error_def
  dma_fragment_cache_fetch_def cache_fetch_locked_def dma_fragment_cache_add_def
  DMA_FRAGMENT_CACHE_TO_IDLE_def DMA_FRAGMENT_CACHE_TO_ACTIVE_def
  fragment_merged_def fragment_setup_spi_def fragment_transfer_def fragment_cs_deselect_def
  fragment_delay_def fragment_trigger_irq_def GFP_ATOMIC_def GFP_KERNEL_def
  ENOMEM_def EPERM_def EINVAL_def EINPROGRESS_def Let_def outcome_map_def
  cache_active_def cache_idle_def cache_fetched_def
  chain_of_def xferA4_def xferA0_def xferB0_def
  dstate_transfer_oom_def dstate_cfg_def dstate_empty_msg_def
  dstate0_def msg0_def merged0_def cache0_def dma_fragment_init_def fresh_fragment_def

lemmas submit_defs = bcm2835dma_spi_transfer_def bcm2835dma_schedule_dma_fragment_def
  bcm2835_link_dma_link_def dma_is_idle_def BCM2835_DMA_CS_ACTIVE_def
  dma_fragment_release_def dma_fragment_cache_return_def list_del_frag_def

text \<open>
  The merge rule table of the specification: two transfers of four bytes
  with the same configuration, in a message without callback, compile to
  setup, transfer, transfer, deselect.
\<close>

lemma merge_rule_table_example:
  "transfers (msgs dstate_cfg 3) = [xferA4, xferA4]
   \<and> outcome_map (chain_of 100 \<circ> snd)
       (bcm2835dma_spi_message_to_dma_fragment 3 0 GFP_ATOMIC dstate_cfg)
     = Some [(fragment_setup_spi, Some xferA4), (fragment_transfer, Some xferA4),
             (fragment_transfer, Some xferA4), (fragment_cs_deselect, Some xferA4)]"
  by (simp add: compile_defs)

text \<open>
  C5 fails on the code.  The compiler compares a transfer with
  \<open>last_transfer\<close>, which only a transfer with payload updates.  For the
  transfers: four bytes at 1 MHz, no payload at 500 kHz, four bytes at 1 MHz,
  the second transfer gets a setup for 500 kHz and the third transfer, which
  differs from the configuration now set, gets none.  For the transfers: no
  payload, then four bytes, the second pass dereferences the NULL
  \<open>last_transfer\<close>.
\<close>

theorem setup_follows_last_payload_transfer:
  "transfers (msgs dstate_cfg 1) = [xferA4, xferB0, xferA4]
   \<and> speed_hz xferB0 \<noteq> speed_hz xferA4 \<and> len xferB0 = 0
   \<and> outcome_map (chain_of 100 \<circ> snd)
       (bcm2835dma_spi_message_to_dma_fragment 1 0 GFP_ATOMIC dstate_cfg)
     = Some [(fragment_setup_spi, Some xferA4), (fragment_transfer, Some xferA4),
             (fragment_setup_spi, Some xferB0), (fragment_transfer, Some xferA4),
             (fragment_cs_deselect, Some xferA4), (fragment_trigger_irq, Some xferA4)]
   \<and> transfers (msgs dstate_cfg 2) = [xferA0, xferA4]
   \<and> bcm2835dma_spi_message_to_dma_fragment 2 0 GFP_ATOMIC dstate_cfg = NullDeref"
  by (simp add: compile_defs)

text \<open>
  C4 fails on the code.  With the third allocation failing, compiling a
  message with one transfer fetches the merged fragment 100, splices the
  setup fragment 101 and fails to fetch the transfer fragment.  The
  submitter gets \<open>-ENOMEM\<close> and nothing is queued, but the \<open>error:\<close> label
  releases nothing: both fragments stay on the active lists of their caches.
\<close>

theorem merge_failure_leaks_fragments:
  "outcome_map fst (bcm2835dma_spi_transfer 1 dstate_transfer_oom) = Some (- ENOMEM)
   \<and> outcome_map (queue \<circ> snd) (bcm2835dma_spi_transfer 1 dstate_transfer_oom) = Some []
   \<and> outcome_map (cache_active fragment_merged \<circ> snd)
        (bcm2835dma_spi_transfer 1 dstate_transfer_oom) = Some [100]
   \<and> outcome_map (cache_idle fragment_merged \<circ> snd)
        (bcm2835dma_spi_transfer 1 dstate_transfer_oom) = Some []
   \<and> outcome_map (cache_active fragment_setup_spi \<circ> snd)
        (bcm2835dma_spi_transfer 1 dstate_transfer_oom) = Some [101]
   \<and> outcome_map (cache_idle fragment_setup_spi \<circ> snd)
        (bcm2835dma_spi_transfer 1 dstate_transfer_oom) = Some []
   \<and> outcome_map (chain_of 100 \<circ> snd)
        (bcm2835dma_spi_transfer 1 dstate_transfer_oom) = Some [(fragment_setup_spi, Some xferA4)]
   \<and> outcome_map (trace \<circ> snd) (bcm2835dma_spi_transfer 1 dstate_transfer_oom) = Some []"
  by (simp add: compile_defs submit_defs)

section \<open>The invariant of the driver\<close>

text \<open>
  What a fetch in atomic context does to the caches, and that the steps of
  the compiler keep the invariant of the caches and of the spliced
  fragments while a merged fragment is being built.
\<close>

lemma cache_add_effect:
  assumes "dma_fragment_cache_add c g fl s = (r, t)"
  shows "kstate.more t = kstate.more s \<and> links t = links s
     \<and> allocateFragment t = allocateFragment s
     \<and> (\<forall>d. d \<noteq> c \<longrightarrow> caches t d = caches s d)
     \<and> (case r of
           None \<Rightarrow> frags t = frags s \<and> next_frag t = next_frag s
                    \<and> idle (caches t c) = idle (caches s c)
         | Some p \<Rightarrow> p = next_frag s \<and> next_frag t = Suc p
                    \<and> (\<forall>q. q \<noteq> p \<longrightarrow> frags t q = frags s q)
                    \<and> (\<exists>fr. allocateFragment s (length (alloc_log s)) = Some fr
                           \<and> frags t p = fr\<lparr>cache := Some c\<rparr>)
                    \<and> (fl = DMA_FRAGMENT_CACHE_TO_ACTIVE \<longrightarrow> idle (caches t c) = idle (caches s c)))"
  using assms
  by (auto simp: dma_fragment_cache_add_def Let_def DMA_FRAGMENT_CACHE_TO_ACTIVE_def
        DMA_FRAGMENT_CACHE_TO_IDLE_def split: option.splits)

lemma cache_fetch_effect:
  assumes "dma_fragment_cache_fetch c g s = (r, t)" "g \<noteq> GFP_KERNEL"
  shows "kstate.more t = kstate.more s \<and> links t = links s
     \<and> allocateFragment t = allocateFragment s
     \<and> (\<forall>d. d \<noteq> c \<longrightarrow> caches t d = caches s d)
     \<and> (case r of
           None \<Rightarrow> frags t = frags s \<and> next_frag t = next_frag s
                    \<and> idle (caches t c) = idle (caches s c)
         | Some p \<Rightarrow>
              (idle (caches s c) = p # idle (caches t c)
                 \<and> frags t = frags s \<and> next_frag t = next_frag s)
            \<or> (idle (caches s c) = [] \<and> idle (caches t c) = []
                 \<and> p = next_frag s \<and> next_frag t = Suc p
                 \<and> (\<forall>q. q \<noteq> p \<longrightarrow> frags t q = frags s q)
                 \<and> (\<exists>fr. allocateFragment s (length (alloc_log s)) = Some fr
                        \<and> frags t p = fr\<lparr>cache := Some c\<rparr>)))"
proof (cases "idle (caches s c)")
  case Nil
  obtain r1 t1 where a: "dma_fragment_cache_add c g DMA_FRAGMENT_CACHE_TO_ACTIVE
      (s\<lparr>caches := (caches s)(c := (caches s c)\<lparr>count_fetched := count_fetched (caches s c) + 1\<rparr>)\<rparr>)
        = (r1, t1)" by (metis surj_pair)
  from assms Nil a have rt: "r = r1" "t = t1"
    by (simp_all add: dma_fragment_cache_fetch_def cache_fetch_locked_def Let_def)
  from cache_add_effect [OF a] Nil show ?thesis unfolding rt
    by (cases r1) auto
next
  case (Cons p rest)
  with assms show ?thesis
    by (auto simp: dma_fragment_cache_fetch_def cache_fetch_locked_def Let_def)
qed


lemma more_eq_dstate:
  fixes s :: dstate
  assumes "kstate.more t = kstate.more s"
  shows "merged t = merged s" "msgs t = msgs s" "queue t = queue s" "trace t = trace s"
    "mem t = mem s" "pre_transform_err t = pre_transform_err s"
    "dma_rx_CS t = dma_rx_CS s" "dma_rx_ADDR t = dma_rx_ADDR s"
    "count_dma_started t = count_dma_started s"
    "count_dma_still_running t = count_dma_still_running s"
    "last_message_dma_was_running t = last_message_dma_was_running s"
    "count_spi_messages t = count_spi_messages s"
    "count_spi_optimized_messages t = count_spi_optimized_messages s"
  using assms by (cases s, cases t, simp)+

lemma caches_okD:
  assumes "caches_ok s" "p \<in> set (idle (caches s c))"
  shows "p < next_frag s" "cache (frags s p) = Some c"
    "c \<noteq> fragment_merged \<Longrightarrow> link_head (frags s p) \<noteq> None"
    "c \<noteq> fragment_merged \<Longrightarrow> link_tail (frags s p) \<noteq> None"
  using assms unfolding caches_ok_def by blast+

lemma caches_ok_distinct: "caches_ok s \<Longrightarrow> distinct (idle (caches s c))"
  unfolding caches_ok_def by blast

lemma caches_ok_alloc:
  "caches_ok s \<Longrightarrow> allocateFragment s n = Some fr \<Longrightarrow>
     link_head fr \<noteq> None \<and> link_tail fr \<noteq> None"
  unfolding caches_ok_def by blast

lemma splices_okD:
  assumes "splices_ok s" "(c, p, x) \<in> set (spliced (merged s f))"
  shows "p < next_frag s" "cache (frags s p) \<noteq> Some fragment_merged"
    "link_head (frags s p) \<noteq> None" "link_tail (frags s p) \<noteq> None"
  using assms unfolding splices_ok_def by blast+

lemma held_okD:
  assumes "held_ok s" "holds_fragment s m"
  obtains f where "state (msgs s m) = Some f" "message (merged s f) = Some m"
    "f < next_frag s" "f \<notin> set (idle (caches s fragment_merged))"
    "link_head (frags s f) \<noteq> None" "link_tail (frags s f) \<noteq> None"
  using assms unfolding held_ok_def by blast

lemma caches_shrink:
  assumes co: "caches_ok s" and so: "splices_ok s"
    and sub: "\<And>d. set (idle (caches s1 d)) \<subseteq> set (idle (caches s d))"
    and dis: "\<And>d. distinct (idle (caches s1 d))"
    and old: "\<And>q. q < next_frag s \<Longrightarrow> frags s1 q = frags s q"
    and al: "allocateFragment s1 = allocateFragment s"
    and nf: "next_frag s \<le> next_frag s1"
    and mg: "\<And>f. spliced (merged s1 f) = spliced (merged s f)"
  shows "caches_ok s1 \<and> splices_ok s1"
proof
  show "caches_ok s1"
    unfolding caches_ok_def
  proof (intro conjI allI impI)
    fix d q assume q: "q \<in> set (idle (caches s1 d))"
    with sub have qs: "q \<in> set (idle (caches s d))" by blast
    with co have ql: "q < next_frag s" by (auto simp: caches_ok_def)
    from qs co have qc: "cache (frags s q) = Some d" by (auto simp: caches_ok_def)
    from ql nf old [OF ql] qc
    show "q < next_frag s1" "cache (frags s1 q) = Some d"
      by simp_all
    assume "d \<noteq> fragment_merged"
    with qs co have "link_head (frags s q) \<noteq> None" "link_tail (frags s q) \<noteq> None"
      by (auto simp: caches_ok_def)
    with old [OF ql]
    show "link_head (frags s1 q) \<noteq> None" "link_tail (frags s1 q) \<noteq> None"
      by simp_all
  next
    fix d show "distinct (idle (caches s1 d))" by (rule dis)
  next
    fix n fr assume "allocateFragment s1 n = Some fr"
    with al co show "link_head fr \<noteq> None" "link_tail fr \<noteq> None"
      by (auto simp: caches_ok_def)
  qed
  show "splices_ok s1"
    unfolding splices_ok_def
  proof (intro allI impI)
    fix f d q x assume "(d, q, x) \<in> set (spliced (merged s1 f))"
    then have "(d, q, x) \<in> set (spliced (merged s f))" by (simp add: mg)
    note a = splices_okD [OF so this]
    with old nf
    show "q < next_frag s1 \<and> cache (frags s1 q) \<noteq> Some fragment_merged
      \<and> link_head (frags s1 q) \<noteq> None \<and> link_tail (frags s1 q) \<noteq> None"
      by simp
  qed
qed

lemma fetch_compiling:
  assumes f: "dma_fragment_cache_fetch c g s = (r, s1)" and g: "g \<noteq> GFP_KERNEL"
    and c: "c \<noteq> fragment_merged" and inv: "compiling mp s"
  shows "compiling mp s1 \<and> compile_frame mp s s1 \<and> frags s1 mp = frags s mp
     \<and> merged s1 = merged s \<and> allocateFragment s1 = allocateFragment s
     \<and> (\<forall>p. r = Some p \<longrightarrow> p < next_frag s1 \<and> p \<noteq> mp
            \<and> cache (frags s1 p) = Some c \<and> links_set s1 p)"
proof -
  note e = cache_fetch_effect [OF f g]
  from e have more: "kstate.more s1 = kstate.more s" by simp
  note d = more_eq_dstate [OF more]
  from e have al: "allocateFragment s1 = allocateFragment s" by simp
  from e have oth: "\<And>d. d \<noteq> c \<Longrightarrow> caches s1 d = caches s d" by simp
  from inv have co: "caches_ok s" and so: "splices_ok s" and mpn: "mp < next_frag s"
    and mpc: "cache (frags s mp) = Some fragment_merged"
    and mpi: "mp \<notin> set (idle (caches s fragment_merged))"
    by (auto simp: compiling_def)
  have key: "compiling mp s1 \<and> compile_frame mp s s1 \<and> frags s1 mp = frags s mp
     \<and> merged s1 = merged s \<and> allocateFragment s1 = allocateFragment s"
    if sub: "\<And>d. set (idle (caches s1 d)) \<subseteq> set (idle (caches s d))"
    and dis: "\<And>d. distinct (idle (caches s1 d))"
    and old: "\<And>q. q < next_frag s \<Longrightarrow> frags s1 q = frags s q"
    and nf: "next_frag s \<le> next_frag s1"
  proof -
    from caches_shrink [OF co so sub dis old al nf] d(1)
    have "caches_ok s1" "splices_ok s1" by simp_all
    moreover from mpi sub have "mp \<notin> set (idle (caches s1 fragment_merged))" by blast
    moreover from old mpn have "frags s1 mp = frags s mp" by simp
    ultimately have "compiling mp s1" using mpn nf mpc by (simp add: compiling_def)
    moreover have "compile_frame mp s s1"
      using d sub old nf by (simp add: compile_frame_def)
    ultimately show ?thesis using old mpn d al by simp
  qed
  show ?thesis
  proof (cases r)
    case None
    with e have a: "frags s1 = frags s" "next_frag s1 = next_frag s"
      "idle (caches s1 c) = idle (caches s c)" by simp_all
    have b: "\<And>d. idle (caches s1 d) = idle (caches s d)"
      using oth a(3) by (case_tac "d = c") simp_all
    have "\<And>d. distinct (idle (caches s1 d))" using b co by (simp add: caches_ok_def)
    from key [OF _ this] a b None show ?thesis by simp
  next
    case (Some p)
    with e consider
      (idle) "idle (caches s c) = p # idle (caches s1 c)" "frags s1 = frags s"
        "next_frag s1 = next_frag s"
    | (fresh) "idle (caches s c) = []" "idle (caches s1 c) = []" "p = next_frag s"
        "next_frag s1 = Suc p" "\<forall>q. q \<noteq> p \<longrightarrow> frags s1 q = frags s q"
        "\<exists>fr. allocateFragment s (length (alloc_log s)) = Some fr
              \<and> frags s1 p = fr\<lparr>cache := Some c\<rparr>"
      by auto
    then show ?thesis
    proof cases
      case idle
      have sub: "\<And>d. set (idle (caches s1 d)) \<subseteq> set (idle (caches s d))"
        using oth idle(1) by (case_tac "d = c") auto
      have "distinct (idle (caches s c))" using co by (simp add: caches_ok_def)
      then have "distinct (idle (caches s1 c))" using idle(1) by simp
      then have dis: "\<And>d. distinct (idle (caches s1 d))"
        using oth co by (case_tac "d = c") (auto simp: caches_ok_def)
      have pin: "p \<in> set (idle (caches s c))" using idle(1) by simp
      with co c have pp: "p < next_frag s" "cache (frags s p) = Some c" "links_set s p"
        by (auto simp: caches_ok_def links_set_def)
      with mpc c have "p \<noteq> mp" by auto
      with key [OF sub dis] pp idle Some show ?thesis
        by (simp add: links_set_def)
    next
      case fresh
      have sub: "\<And>d. set (idle (caches s1 d)) \<subseteq> set (idle (caches s d))"
        using oth fresh(1,2) by (case_tac "d = c") auto
      have dis: "\<And>d. distinct (idle (caches s1 d))"
        using oth fresh(2) co
        by (case_tac "d = c") (auto simp: caches_ok_def)
      from fresh(6) co have pl: "links_set s1 p" "cache (frags s1 p) = Some c"
        by (auto simp: caches_ok_def links_set_def)
      from mpn fresh(3) have pm: "p \<noteq> mp" by auto
      have old: "\<And>q. q < next_frag s \<Longrightarrow> frags s1 q = frags s q"
        using fresh(3,5) by auto
      from key [OF sub dis old] pl pm fresh(3,4) Some show ?thesis by simp
    qed
  qed
qed


lemma merge_shape:
  assumes "spi_merged_dma_fragment_merge_fragment_cache c mp g s = (e, t)"
    and "dma_fragment_cache_fetch c g s = (r, s1)"
  shows "(r = None \<longrightarrow> e = - ENOMEM \<and> t = s1)
     \<and> (\<forall>p. r = Some p \<longrightarrow> e = 0
          \<and> caches t = caches s1 \<and> next_frag t = next_frag s1
          \<and> allocateFragment t = allocateFragment s1
          \<and> (\<forall>q. q \<noteq> mp \<longrightarrow> frags t q = frags s1 q)
          \<and> cache (frags t mp) = cache (frags s1 mp)
          \<and> link_head (frags t mp) = (if link_head (frags s1 mp) = None
               then link_head (frags s1 p) else link_head (frags s1 mp))
          \<and> link_tail (frags t mp) = (if link_tail (frags s1 p) = None
               then link_tail (frags s1 mp) else link_tail (frags s1 p))
          \<and> (\<forall>f. f \<noteq> mp \<longrightarrow> merged t f = merged s1 f)
          \<and> merged t mp = (merged s1 mp)
               \<lparr>spliced := spliced (merged s1 mp) @ [(c, p, transfer (merged s1 mp))]\<rparr>
          \<and> msgs t = msgs s1 \<and> queue t = queue s1 \<and> trace t = trace s1 \<and> mem t = mem s1
          \<and> pre_transform_err t = pre_transform_err s1
          \<and> dma_rx_CS t = dma_rx_CS s1 \<and> dma_rx_ADDR t = dma_rx_ADDR s1
          \<and> count_dma_started t = count_dma_started s1
          \<and> count_dma_still_running t = count_dma_still_running s1)"
  using assms
  by (cases r)
     (auto simp: spi_merged_dma_fragment_merge_fragment_cache_def Let_def ENOMEM_def
        split: option.splits)

lemma merge_compiling:
  assumes m: "spi_merged_dma_fragment_merge_fragment_cache c mp g s = (e, t)"
    and g: "g \<noteq> GFP_KERNEL" and c: "c \<noteq> fragment_merged" and inv: "compiling mp s"
  shows "compiling mp t \<and> compile_frame mp s t
     \<and> (e = 0 \<longrightarrow> links_set t mp) \<and> (links_set s mp \<longrightarrow> links_set t mp)
     \<and> needs_spi_setup (merged t mp) = needs_spi_setup (merged s mp)
     \<and> last_transfer (merged t mp) = last_transfer (merged s mp)"
proof -
  obtain r s1 where f: "dma_fragment_cache_fetch c g s = (r, s1)" by (metis surj_pair)
  note fc = fetch_compiling [OF f g c inv]
  note sh = merge_shape [OF m f]
  show ?thesis
  proof (cases r)
    case None
    with sh have "t = s1" "e \<noteq> 0" by (simp_all add: ENOMEM_def)
    with fc show ?thesis by (simp add: links_set_def)
  next
    case (Some p)
    from fc Some have p: "p < next_frag s1" "p \<noteq> mp" "cache (frags s1 p) = Some c"
      "links_set s1 p" by simp_all
    from fc have i1: "compiling mp s1" and f1: "compile_frame mp s s1"
      and mp1: "frags s1 mp = frags s mp" and mg1: "merged s1 = merged s" by simp_all
    from i1 have co: "caches_ok s1" and so: "splices_ok s1" and mpn: "mp < next_frag s1"
      and mpc: "cache (frags s1 mp) = Some fragment_merged"
      and mpi: "mp \<notin> set (idle (caches s1 fragment_merged))"
      by (auto simp: compiling_def)
    from sh Some have e: "e = 0" and ca: "caches t = caches s1"
      and nf: "next_frag t = next_frag s1" and al: "allocateFragment t = allocateFragment s1"
      and fo: "\<And>q. q \<noteq> mp \<Longrightarrow> frags t q = frags s1 q"
      and fc': "cache (frags t mp) = cache (frags s1 mp)"
      and lh: "link_head (frags t mp) = (if link_head (frags s1 mp) = None
               then link_head (frags s1 p) else link_head (frags s1 mp))"
      and lt: "link_tail (frags t mp) = (if link_tail (frags s1 p) = None
               then link_tail (frags s1 mp) else link_tail (frags s1 p))"
      and mo: "\<And>f. f \<noteq> mp \<Longrightarrow> merged t f = merged s1 f"
      and mm: "merged t mp = (merged s1 mp)
               \<lparr>spliced := spliced (merged s1 mp) @ [(c, p, transfer (merged s1 mp))]\<rparr>"
      and rest: "msgs t = msgs s1" "queue t = queue s1" "trace t = trace s1" "mem t = mem s1"
          "pre_transform_err t = pre_transform_err s1"
          "dma_rx_CS t = dma_rx_CS s1" "dma_rx_ADDR t = dma_rx_ADDR s1"
          "count_dma_started t = count_dma_started s1"
          "count_dma_still_running t = count_dma_still_running s1"
      by simp_all
    have idle_ne: "q \<noteq> mp" if "q \<in> set (idle (caches s1 d))" for q d
      using caches_okD(2) [OF co that] mpc mpi that by auto
    have cot: "caches_ok t"
      unfolding caches_ok_def
    proof (intro conjI allI impI)
      fix d q assume "q \<in> set (idle (caches t d))"
      then have q: "q \<in> set (idle (caches s1 d))" by (simp add: ca)
      note qq = caches_okD [OF co q] idle_ne [OF q]
      with fo nf show "q < next_frag t" "cache (frags t q) = Some d" by simp_all
      assume "d \<noteq> fragment_merged"
      with qq fo show "link_head (frags t q) \<noteq> None" "link_tail (frags t q) \<noteq> None"
        by simp_all
    next
      fix d show "distinct (idle (caches t d))" using caches_ok_distinct [OF co] ca by simp
    next
      fix n fr assume "allocateFragment t n = Some fr"
      with al caches_ok_alloc [OF co] show "link_head fr \<noteq> None" "link_tail fr \<noteq> None"
        by auto
    qed
    have sot: "splices_ok t"
      unfolding splices_ok_def
    proof (intro allI impI)
      fix f d q x assume a: "(d, q, x) \<in> set (spliced (merged t f))"
      have "q < next_frag s1 \<and> q \<noteq> mp \<and> cache (frags s1 q) \<noteq> Some fragment_merged
        \<and> link_head (frags s1 q) \<noteq> None \<and> link_tail (frags s1 q) \<noteq> None"
      proof (cases "(d, q, x) \<in> set (spliced (merged s1 f))")
        case True
        from splices_okD [OF so True] mpc show ?thesis by auto
      next
        case False
        with a mo mm have "f = mp" "q = p" by (cases "f = mp"; simp)+
        with p c show ?thesis by (auto simp: links_set_def)
      qed
      with fo nf
      show "q < next_frag t \<and> cache (frags t q) \<noteq> Some fragment_merged
        \<and> link_head (frags t q) \<noteq> None \<and> link_tail (frags t q) \<noteq> None"
        by simp
    qed
    have cmp: "compiling mp t"
      using cot sot mpn nf fc' mpc mpi ca by (simp add: compiling_def)
    have "compile_frame mp s1 t"
      using nf rest mo mm fo ca by (simp add: compile_frame_def)
    with f1 have cf: "compile_frame mp s t"
      unfolding compile_frame_def by (auto simp: subset_iff)
    from lh lt p(4) have ls: "links_set t mp" by (auto simp: links_set_def)
    from cmp cf ls mm mg1 show ?thesis by simp
  qed
qed

lemma compile_frame_trans:
  "compile_frame mp s t \<Longrightarrow> compile_frame mp t u \<Longrightarrow> compile_frame mp s u"
  unfolding compile_frame_def by (auto simp: subset_iff)

lemma compile_frame_refl: "compile_frame mp s s"
  unfolding compile_frame_def by simp


lemma merged_update_compiling:
  assumes "spliced mg = spliced (merged s mp)" "message mg = message (merged s mp)"
  shows "compiling mp' (s\<lparr>merged := (merged s)(mp := mg)\<rparr>) = compiling mp' s"
    and "compile_frame mp s (s\<lparr>merged := (merged s)(mp := mg)\<rparr>)"
    and "links_set (s\<lparr>merged := (merged s)(mp := mg)\<rparr>) f = links_set s f"
proof -
  have sp: "\<And>f. spliced (merged (s\<lparr>merged := (merged s)(mp := mg)\<rparr>) f) = spliced (merged s f)"
    by (simp add: assms)
  have "splices_ok (s\<lparr>merged := (merged s)(mp := mg)\<rparr>) = splices_ok s"
    unfolding splices_ok_def sp by simp
  then show "compiling mp' (s\<lparr>merged := (merged s)(mp := mg)\<rparr>) = compiling mp' s"
    by (simp add: compiling_def caches_ok_def)
  show "compile_frame mp s (s\<lparr>merged := (merged s)(mp := mg)\<rparr>)"
    using assms by (simp add: compile_frame_def)
  show "links_set (s\<lparr>merged := (merged s)(mp := mg)\<rparr>) f = links_set s f"
    by (simp add: links_set_def)
qed

lemma merge_one_transfer_compiling:
  assumes one: "merge_one_transfer mp g x l s = (e, t)"
    and g: "g \<noteq> GFP_KERNEL" and inv: "compiling mp s"
  shows "compiling mp t \<and> compile_frame mp s t
     \<and> (links_set s mp \<longrightarrow> links_set t mp)
     \<and> (e = 0 \<longrightarrow> \<not> needs_spi_setup (merged t mp)
          \<and> last_transfer (merged t mp)
              = (if len x \<noteq> 0 then Some x else last_transfer (merged s mp))
          \<and> (l \<longrightarrow> links_set t mp))"
proof -
  have cs: "fragment_setup_spi \<noteq> fragment_merged" "fragment_transfer \<noteq> fragment_merged"
    "fragment_cs_deselect \<noteq> fragment_merged" "fragment_delay \<noteq> fragment_merged"
    by (simp_all add: fragment_setup_spi_def fragment_transfer_def fragment_cs_deselect_def
          fragment_delay_def fragment_merged_def)
  define st1 where "st1 = (if needs_spi_setup (merged s mp) then
               (case spi_merged_dma_fragment_merge_fragment_cache
                       fragment_setup_spi mp g s of
                  (err, t) \<Rightarrow>
                    if err \<noteq> 0 then (err, t)
                    else (0, t\<lparr>merged := (merged t)(mp :=
                                 (merged t mp)\<lparr>needs_spi_setup := False\<rparr>)\<rparr>))
             else (0, s))"
  obtain e1 s1 where st1: "st1 = (e1, s1)" by (metis surj_pair)
  have A: "compiling mp s1 \<and> compile_frame mp s s1 \<and> (links_set s mp \<longrightarrow> links_set s1 mp)
     \<and> (e1 = 0 \<longrightarrow> \<not> needs_spi_setup (merged s1 mp))
     \<and> last_transfer (merged s1 mp) = last_transfer (merged s mp)"
  proof (cases "needs_spi_setup (merged s mp)")
    case False
    with st1 have "e1 = 0" "s1 = s" by (simp_all add: st1_def)
    with inv False show ?thesis by (simp add: compile_frame_refl)
  next
    case True
    obtain ea ta where m: "spi_merged_dma_fragment_merge_fragment_cache
                       fragment_setup_spi mp g s = (ea, ta)" by (metis surj_pair)
    note mc = merge_compiling [OF m g cs(1) inv]
    show ?thesis
    proof (cases "ea = 0")
      case False
      with st1 True m have "e1 = ea" "s1 = ta" by (simp_all add: st1_def)
      with mc False show ?thesis by simp
    next
      case z: True
      with st1 True m have "e1 = 0" "s1 = ta\<lparr>merged := (merged ta)(mp :=
                                 (merged ta mp)\<lparr>needs_spi_setup := False\<rparr>)\<rparr>"
        by (simp_all add: st1_def)
      moreover note u = merged_update_compiling
        [of "(merged ta mp)\<lparr>needs_spi_setup := False\<rparr>" ta mp]
      ultimately show ?thesis using mc u(1) [of mp] u(2) u(3) [of mp]
        by (auto intro: compile_frame_trans)
    qed
  qed
  define st2 where "st2 = (if len x \<noteq> 0 then
                     (case spi_merged_dma_fragment_merge_fragment_cache
                             fragment_transfer mp g s1 of
                        (err, t) \<Rightarrow>
                          if err \<noteq> 0 then (err, t)
                          else (0, t\<lparr>merged := (merged t)(mp :=
                                       (merged t mp)\<lparr>last_transfer := Some x\<rparr>)\<rparr>))
                   else (0, s1))"
  obtain e2 s2 where st2: "st2 = (e2, s2)" by (metis surj_pair)
  from A have inv1: "compiling mp s1" by simp
  have B: "compiling mp s2 \<and> compile_frame mp s1 s2 \<and> (links_set s1 mp \<longrightarrow> links_set s2 mp)
     \<and> needs_spi_setup (merged s2 mp) = needs_spi_setup (merged s1 mp)
     \<and> (e2 = 0 \<longrightarrow> last_transfer (merged s2 mp)
            = (if len x \<noteq> 0 then Some x else last_transfer (merged s1 mp)))"
  proof (cases "len x \<noteq> 0")
    case False
    with st2 have "e2 = 0" "s2 = s1" by (simp_all add: st2_def)
    with inv1 False show ?thesis by (simp add: compile_frame_refl)
  next
    case True
    obtain ea ta where m: "spi_merged_dma_fragment_merge_fragment_cache
                       fragment_transfer mp g s1 = (ea, ta)" by (metis surj_pair)
    note mc = merge_compiling [OF m g cs(2) inv1]
    show ?thesis
    proof (cases "ea = 0")
      case False
      with st2 True m have "e2 = ea" "s2 = ta" by (simp_all add: st2_def)
      with mc False show ?thesis by simp
    next
      case z: True
      with st2 True m have "e2 = 0" "s2 = ta\<lparr>merged := (merged ta)(mp :=
                                 (merged ta mp)\<lparr>last_transfer := Some x\<rparr>)\<rparr>"
        by (simp_all add: st2_def)
      moreover note u = merged_update_compiling
        [of "(merged ta mp)\<lparr>last_transfer := Some x\<rparr>" ta mp]
      ultimately show ?thesis using mc True u(1) [of mp] u(2) u(3) [of mp]
        by (auto intro: compile_frame_trans)
    qed
  qed
  from B have inv2: "compiling mp s2" by simp
  from A B have f2: "compile_frame mp s s2" by (blast intro: compile_frame_trans)
  from A B have l2: "links_set s mp \<longrightarrow> links_set s2 mp" by simp
  from one have one': "(e, t) = (if e1 \<noteq> 0 then (e1, s1)
         else if e2 \<noteq> 0 then (e2, s2)
               else if cs_change x \<or> l then
                 spi_merged_dma_fragment_merge_fragment_cache
                   fragment_cs_deselect mp g s2
               else if delay_usecs x \<noteq> 0 then
                 spi_merged_dma_fragment_merge_fragment_cache
                   fragment_delay mp g s2
               else (0, s2))"
    unfolding merge_one_transfer_def
    unfolding st1_def [symmetric] st1
    unfolding Let_def prod.case
    unfolding st2_def [symmetric] st2
    unfolding prod.case
    by simp
  consider (a) "e1 \<noteq> 0" | (b) "e1 = 0" "e2 \<noteq> 0"
    | (c) "e1 = 0" "e2 = 0" "cs_change x \<or> l"
    | (d) "e1 = 0" "e2 = 0" "\<not> (cs_change x \<or> l)" "delay_usecs x \<noteq> 0"
    | (e) "e1 = 0" "e2 = 0" "\<not> (cs_change x \<or> l)" "delay_usecs x = 0"
    by blast
  then show ?thesis
  proof cases
    case a
    with one' have "e = e1" "t = s1" by simp_all
    with A a show ?thesis by simp
  next
    case b
    with one' have "e = e2" "t = s2" by simp_all
    with inv2 f2 l2 b show ?thesis by simp
  next
    case c
    with one' have m: "spi_merged_dma_fragment_merge_fragment_cache
                   fragment_cs_deselect mp g s2 = (e, t)" by simp
    note mc = merge_compiling [OF m g cs(3) inv2]
    with f2 l2 A B c show ?thesis by (auto intro: compile_frame_trans)
  next
    case d
    with one' have m: "spi_merged_dma_fragment_merge_fragment_cache
                   fragment_delay mp g s2 = (e, t)" by simp
    note mc = merge_compiling [OF m g cs(4) inv2]
    with f2 l2 A B d show ?thesis by (auto intro: compile_frame_trans)
  next
    case e
    with one' have "e = 0" "t = s2" by simp_all
    with inv2 f2 l2 A B e show ?thesis by auto
  qed
qed


lemma merge_transfers_compiling:
  assumes g: "g \<noteq> GFP_KERNEL" and inv: "compiling mp s"
    and G: "xs = [] \<or> last_transfer (merged s mp) \<noteq> None
         \<or> (needs_spi_setup (merged s mp) \<and> (tl xs = [] \<or> len (hd xs) \<noteq> 0))"
  shows "\<exists>e t. merge_transfers mp g xs s = Returns (e, t)
     \<and> compiling mp t \<and> compile_frame mp s t
     \<and> (links_set s mp \<longrightarrow> links_set t mp)
     \<and> (e = 0 \<and> xs \<noteq> [] \<longrightarrow> links_set t mp)"
  using inv G
proof (induction xs arbitrary: s)
  case Nil
  then show ?case by (simp add: compile_frame_refl)
next
  case (Cons x xs)
  define s0 where "s0 = s\<lparr>merged := (merged s)(mp := (merged s mp)\<lparr>transfer := Some x\<rparr>)\<rparr>"
  have m0: "merged s0 mp = (merged s mp)\<lparr>transfer := Some x\<rparr>" by (simp add: s0_def)
  from Cons.prems(2) have G': "last_transfer (merged s mp) \<noteq> None
         \<or> (needs_spi_setup (merged s mp) \<and> (xs = [] \<or> len x \<noteq> 0))" by simp
  have "\<exists>mg. reconfigure_check (merged s0 mp) x = Returns mg
      \<and> spliced mg = spliced (merged s mp) \<and> message mg = message (merged s mp)
      \<and> last_transfer mg = last_transfer (merged s mp)
      \<and> (needs_spi_setup (merged s mp) \<longrightarrow> needs_spi_setup mg)"
  proof (cases "needs_spi_setup (merged s mp)")
    case True
    then show ?thesis by (simp add: reconfigure_check_def m0)
  next
    case False
    with G' obtain lt where "last_transfer (merged s mp) = Some lt" by auto
    with False show ?thesis by (simp add: reconfigure_check_def m0)
  qed
  then obtain mg where mg: "reconfigure_check (merged s0 mp) x = Returns mg"
    and mgf: "spliced mg = spliced (merged s mp)" "message mg = message (merged s mp)"
      "last_transfer mg = last_transfer (merged s mp)"
      "needs_spi_setup (merged s mp) \<longrightarrow> needs_spi_setup mg"
    by blast
  define sa where "sa = s0\<lparr>merged := (merged s0)(mp := mg)\<rparr>"
  have sa: "sa = s\<lparr>merged := (merged s)(mp := mg)\<rparr>" by (simp add: sa_def s0_def)
  note u = merged_update_compiling [of mg s mp, OF mgf(1,2), folded sa]
  from u(1) [of mp] Cons.prems(1) have inva: "compiling mp sa" by simp
  have ma: "merged sa mp = mg" by (simp add: sa)
  obtain e1 s1 where one: "merge_one_transfer mp g x (xs = []) sa = (e1, s1)"
    by (metis surj_pair)
  note oc = merge_one_transfer_compiling [OF one g inva]
  from oc u(2) have f1: "compile_frame mp s s1" by (blast intro: compile_frame_trans)
  from oc u(3) [of mp] have l1: "links_set s mp \<longrightarrow> links_set s1 mp" by simp
  from oc have inv1: "compiling mp s1" by simp
  have unf: "merge_transfers mp g (x # xs) s
       = (if e1 \<noteq> 0 then Returns (e1, s1) else merge_transfers mp g xs s1)"
    using mg one by (simp add: s0_def [symmetric] sa_def [symmetric] Let_def)
  show ?case
  proof (cases "e1 = 0")
    case False
    with unf inv1 f1 l1 show ?thesis by simp
  next
    case True
    with oc ma mgf G' have "xs = [] \<or> last_transfer (merged s1 mp) \<noteq> None" by auto
    then have "xs = [] \<or> last_transfer (merged s1 mp) \<noteq> None
         \<or> (needs_spi_setup (merged s1 mp) \<and> (tl xs = [] \<or> len (hd xs) \<noteq> 0))" by blast
    from Cons.IH [OF inv1 this] obtain e t where
      r: "merge_transfers mp g xs s1 = Returns (e, t)" "compiling mp t"
        "compile_frame mp s1 t" "links_set s1 mp \<longrightarrow> links_set t mp"
        "e = 0 \<and> xs \<noteq> [] \<longrightarrow> links_set t mp" by blast
    have "e = 0 \<longrightarrow> links_set t mp"
    proof (cases "xs = []")
      case True
      with oc \<open>e1 = 0\<close> r(4) show ?thesis by simp
    next
      case False
      with r(5) show ?thesis by simp
    qed
    with unf True r f1 l1 show ?thesis
      by (auto intro: compile_frame_trans)
  qed
qed


lemma atomic_not_kernel: "GFP_ATOMIC \<noteq> GFP_KERNEL"
  by (simp add: GFP_ATOMIC_def GFP_KERNEL_def GFP_WAIT_def)

lemma fetch_merged:
  assumes f: "dma_fragment_cache_fetch fragment_merged g s = (r, s1)"
    and g: "g \<noteq> GFP_KERNEL" and co: "caches_ok s" and so: "splices_ok s"
  shows "caches_ok s1 \<and> splices_ok s1 \<and> kstate.more s1 = kstate.more s
     \<and> next_frag s \<le> next_frag s1
     \<and> (\<forall>q. q < next_frag s \<longrightarrow> frags s1 q = frags s q)
     \<and> (\<forall>c. set (idle (caches s1 c)) \<subseteq> set (idle (caches s c)))
     \<and> (\<forall>mp. r = Some mp \<longrightarrow> mp < next_frag s1
            \<and> cache (frags s1 mp) = Some fragment_merged
            \<and> mp \<notin> set (idle (caches s1 fragment_merged))
            \<and> (mp \<in> set (idle (caches s fragment_merged)) \<or> mp = next_frag s))"
proof -
  let ?c = fragment_merged
  note e = cache_fetch_effect [OF f g]
  from e have more: "kstate.more s1 = kstate.more s" by simp
  note d = more_eq_dstate [OF more]
  from e have al: "allocateFragment s1 = allocateFragment s" by simp
  from e have oth: "\<And>d. d \<noteq> ?c \<Longrightarrow> caches s1 d = caches s d" by simp
  have key: "caches_ok s1 \<and> splices_ok s1 \<and> kstate.more s1 = kstate.more s
     \<and> next_frag s \<le> next_frag s1
     \<and> (\<forall>q. q < next_frag s \<longrightarrow> frags s1 q = frags s q)
     \<and> (\<forall>c. set (idle (caches s1 c)) \<subseteq> set (idle (caches s c)))"
    if sub: "\<And>d. set (idle (caches s1 d)) \<subseteq> set (idle (caches s d))"
    and dis: "\<And>d. distinct (idle (caches s1 d))"
    and old: "\<And>q. q < next_frag s \<Longrightarrow> frags s1 q = frags s q"
    and nf: "next_frag s \<le> next_frag s1"
    using caches_shrink [OF co so sub dis old al nf] d(1) more sub old nf by simp
  show ?thesis
  proof (cases r)
    case None
    with e have a: "frags s1 = frags s" "next_frag s1 = next_frag s"
      "idle (caches s1 ?c) = idle (caches s ?c)" by simp_all
    have b: "\<And>d. idle (caches s1 d) = idle (caches s d)"
      using oth a(3) by (case_tac "d = ?c") simp_all
    have "\<And>d. distinct (idle (caches s1 d))" using b co by (simp add: caches_ok_def)
    from key [OF _ this] a b None show ?thesis by simp
  next
    case (Some p)
    with e consider
      (idle) "idle (caches s ?c) = p # idle (caches s1 ?c)" "frags s1 = frags s"
        "next_frag s1 = next_frag s"
    | (fresh) "idle (caches s ?c) = []" "idle (caches s1 ?c) = []" "p = next_frag s"
        "next_frag s1 = Suc p" "\<forall>q. q \<noteq> p \<longrightarrow> frags s1 q = frags s q"
        "\<exists>fr. allocateFragment s (length (alloc_log s)) = Some fr
              \<and> frags s1 p = fr\<lparr>cache := Some ?c\<rparr>"
      by auto
    then show ?thesis
    proof cases
      case idle
      have sub: "\<And>d. set (idle (caches s1 d)) \<subseteq> set (idle (caches s d))"
        using oth idle(1) by (case_tac "d = ?c") auto
      have dc: "distinct (idle (caches s ?c))" using co by (simp add: caches_ok_def)
      then have "distinct (idle (caches s1 ?c))" using idle(1) by simp
      then have dis: "\<And>d. distinct (idle (caches s1 d))"
        using oth co by (case_tac "d = ?c") (auto simp: caches_ok_def)
      have pin: "p \<in> set (idle (caches s ?c))" using idle(1) by simp
      note pp = caches_okD(1,2) [OF co pin]
      from dc idle(1) have "p \<notin> set (idle (caches s1 ?c))" by simp
      with key [OF sub dis] pp idle Some pin show ?thesis by simp
    next
      case fresh
      have sub: "\<And>d. set (idle (caches s1 d)) \<subseteq> set (idle (caches s d))"
        using oth fresh(1,2) by (case_tac "d = ?c") auto
      have dis: "\<And>d. distinct (idle (caches s1 d))"
        using oth fresh(2) co
        by (case_tac "d = ?c") (auto simp: caches_ok_def)
      from fresh(6) have pl: "cache (frags s1 p) = Some ?c" by auto
      have old: "\<And>q. q < next_frag s \<Longrightarrow> frags s1 q = frags s q"
        using fresh(3,5) by auto
      from key [OF sub dis old] pl fresh(2,3,4) Some show ?thesis by simp
    qed
  qed
qed


lemma compile_effect:
  assumes co: "caches_ok s" and so: "splices_ok s" and cm: "compilable (msgs s m)"
  shows "\<exists>r t. bcm2835dma_spi_message_to_dma_fragment m fl GFP_ATOMIC s = Returns (r, t)
     \<and> caches_ok t \<and> splices_ok t \<and> next_frag s \<le> next_frag t
     \<and> msgs t = msgs s \<and> queue t = queue s \<and> trace t = trace s \<and> mem t = mem s
     \<and> pre_transform_err t = pre_transform_err s
     \<and> dma_rx_CS t = dma_rx_CS s \<and> dma_rx_ADDR t = dma_rx_ADDR s
     \<and> count_dma_started t = count_dma_started s
     \<and> count_dma_still_running t = count_dma_still_running s
     \<and> (\<forall>f. f < next_frag s \<and> f \<notin> set (idle (caches s fragment_merged))
            \<longrightarrow> merged t f = merged s f \<and> frags t f = frags s f)
     \<and> (\<forall>c. set (idle (caches t c)) \<subseteq> set (idle (caches s c)))
     \<and> (\<forall>mp. r = Some mp \<longrightarrow> message (merged t mp) = Some m \<and> mp < next_frag t
            \<and> mp \<notin> set (idle (caches t fragment_merged)) \<and> links_set t mp
            \<and> (mp \<in> set (idle (caches s fragment_merged)) \<or> mp = next_frag s))"
proof -
  let ?g = GFP_ATOMIC
  note g = atomic_not_kernel
  obtain r0 s1 where f: "dma_fragment_cache_fetch fragment_merged ?g s = (r0, s1)"
    by (metis surj_pair)
  note fm = fetch_merged [OF f g co so]
  from fm have more: "kstate.more s1 = kstate.more s" by simp
  note d1 = more_eq_dstate [OF more]
  show ?thesis
  proof (cases r0)
    case None
    with f have "bcm2835dma_spi_message_to_dma_fragment m fl ?g s = Returns (None, s1)"
      by (simp add: bcm2835dma_spi_message_to_dma_fragment_def)
    with fm d1 show ?thesis by simp
  next
    case (Some mp)
    from fm Some have mp: "mp < next_frag s1" "cache (frags s1 mp) = Some fragment_merged"
      "mp \<notin> set (idle (caches s1 fragment_merged))"
      "mp \<in> set (idle (caches s fragment_merged)) \<or> mp = next_frag s" by simp_all
    from fm have co1: "caches_ok s1" and so1: "splices_ok s1"
      and nf1: "next_frag s \<le> next_frag s1"
      and old1: "\<And>q. q < next_frag s \<Longrightarrow> frags s1 q = frags s q"
      and sub1: "\<And>c. set (idle (caches s1 c)) \<subseteq> set (idle (caches s c))" by simp_all
    define s2 where "s2 = s1\<lparr>merged := (merged s1)(mp :=
                         (merged s1 mp)\<lparr>message := Some m, transfer := None,
                            last_transfer := None, complete_data := None,
                            needs_spi_setup := True\<rparr>),
                       frags := (frags s1)(mp :=
                         (frags s1 mp)\<lparr>link_head := None, link_tail := None\<rparr>)\<rparr>"
    have s2f: "caches s2 = caches s1" "next_frag s2 = next_frag s1"
      "allocateFragment s2 = allocateFragment s1"
      "\<And>q. q \<noteq> mp \<Longrightarrow> frags s2 q = frags s1 q"
      "cache (frags s2 mp) = cache (frags s1 mp)"
      "\<And>f. spliced (merged s2 f) = spliced (merged s1 f)"
      "\<And>f. f \<noteq> mp \<Longrightarrow> merged s2 f = merged s1 f"
      "message (merged s2 mp) = Some m" "needs_spi_setup (merged s2 mp)"
      "msgs s2 = msgs s1" "queue s2 = queue s1" "trace s2 = trace s1" "mem s2 = mem s1"
      "pre_transform_err s2 = pre_transform_err s1"
      "dma_rx_CS s2 = dma_rx_CS s1" "dma_rx_ADDR s2 = dma_rx_ADDR s1"
      "count_dma_started s2 = count_dma_started s1"
      "count_dma_still_running s2 = count_dma_still_running s1"
      by (simp_all add: s2_def)
    have idle_ne: "q \<noteq> mp" if "q \<in> set (idle (caches s1 d))" for q d
      using caches_okD(2) [OF co1 that] mp(2,3) that by auto
    have co2: "caches_ok s2"
      unfolding caches_ok_def
    proof (intro conjI allI impI)
      fix d q assume "q \<in> set (idle (caches s2 d))"
      then have q: "q \<in> set (idle (caches s1 d))" by (simp add: s2f)
      note qq = caches_okD [OF co1 q] idle_ne [OF q]
      with s2f show "q < next_frag s2" "cache (frags s2 q) = Some d" by simp_all
      assume "d \<noteq> fragment_merged"
      with qq s2f show "link_head (frags s2 q) \<noteq> None" "link_tail (frags s2 q) \<noteq> None"
        by simp_all
    next
      fix d show "distinct (idle (caches s2 d))" using caches_ok_distinct [OF co1] s2f by simp
    next
      fix n fr assume "allocateFragment s2 n = Some fr"
      with s2f caches_ok_alloc [OF co1]
      show "link_head fr \<noteq> None" "link_tail fr \<noteq> None" by auto
    qed
    have so2: "splices_ok s2"
      unfolding splices_ok_def
    proof (intro allI impI)
      fix f d q x assume "(d, q, x) \<in> set (spliced (merged s2 f))"
      then have "(d, q, x) \<in> set (spliced (merged s1 f))" by (simp add: s2f)
      note a = splices_okD [OF so1 this]
      with mp(2) have "q \<noteq> mp" by auto
      with a s2f
      show "q < next_frag s2 \<and> cache (frags s2 q) \<noteq> Some fragment_merged
        \<and> link_head (frags s2 q) \<noteq> None \<and> link_tail (frags s2 q) \<noteq> None"
        by simp
    qed
    have inv2: "compiling mp s2"
      using co2 so2 mp s2f by (simp add: compiling_def)
    from cm have G: "transfers (msgs s2 m) = [] \<or> last_transfer (merged s2 mp) \<noteq> None
         \<or> (needs_spi_setup (merged s2 mp)
              \<and> (tl (transfers (msgs s2 m)) = [] \<or> len (hd (transfers (msgs s2 m))) \<noteq> 0))"
      and ne: "transfers (msgs s2 m) \<noteq> []"
      by (auto simp: compilable_def s2f d1 split: list.splits)
    from merge_transfers_compiling [OF g inv2 G] ne obtain e3 s3 where
      m3: "merge_transfers mp ?g (transfers (msgs s2 m)) s2 = Returns (e3, s3)"
      and inv3: "compiling mp s3" and f3: "compile_frame mp s2 s3"
      and l3: "e3 = 0 \<longrightarrow> links_set s3 mp" by blast
    define st4 where "st4 = (if complete (msgs s3 m)
                           then spi_merged_dma_fragment_merge_fragment_cache
                                  fragment_trigger_irq mp ?g s3
                           else (0, s3))"
    obtain e4 s4 where st4: "st4 = (e4, s4)" by (metis surj_pair)
    have ct: "fragment_trigger_irq \<noteq> fragment_merged"
      by (simp add: fragment_trigger_irq_def fragment_merged_def)
    have D: "compiling mp s4 \<and> compile_frame mp s3 s4 \<and> (links_set s3 mp \<longrightarrow> links_set s4 mp)"
    proof (cases "complete (msgs s3 m)")
      case True
      with st4 have "spi_merged_dma_fragment_merge_fragment_cache
                                  fragment_trigger_irq mp ?g s3 = (e4, s4)"
        by (simp add: st4_def)
      from merge_compiling [OF this g ct inv3] show ?thesis by simp
    next
      case False
      with st4 have "s4 = s3" by (simp add: st4_def)
      with inv3 show ?thesis by (simp add: compile_frame_refl)
    qed
    from f3 D have f4: "compile_frame mp s2 s4" by (blast intro: compile_frame_trans)
    define s5 where "s5 = s4\<lparr>merged := (merged s4)(mp :=
                                     (merged s4 mp)\<lparr>transfer := None, last_transfer := None\<rparr>)\<rparr>"
    note u = merged_update_compiling
      [of "(merged s4 mp)\<lparr>transfer := None, last_transfer := None\<rparr>" s4 mp, folded s5_def]
    from u(1) [of mp] D have inv5: "compiling mp s5" by simp
    from u(2) f4 have f5: "compile_frame mp s2 s5" by (auto intro: compile_frame_trans)
    from u(3) [of mp] have l5: "links_set s5 mp = links_set s4 mp" by simp
    have res: "bcm2835dma_spi_message_to_dma_fragment m fl ?g s
        = (if e3 \<noteq> 0 then Returns (message_to_dma_fragment_error e3 s3)
           else if e4 \<noteq> 0 then Returns (message_to_dma_fragment_error e4 s4)
           else Returns (Some mp, s5))"
      unfolding bcm2835dma_spi_message_to_dma_fragment_def f Some
      unfolding prod.case option.case s2_def [symmetric] Let_def
      unfolding m3 outcome.case prod.case st4_def [symmetric] st4 s5_def [symmetric]
      by simp
    have fin: "?thesis" if t: "bcm2835dma_spi_message_to_dma_fragment m fl ?g s = Returns (r, t)"
      and inv: "compiling mp u" and fr: "compile_frame mp s2 u"
      and tu: "caches t = caches u" "next_frag t = next_frag u" "frags t = frags u"
        "merged t = merged u" "allocateFragment t = allocateFragment u"
        "kstate.more t = kstate.more u"
      and rr: "r = None \<or> (r = Some mp \<and> links_set u mp)"
      for r t u
    proof -
      note dt = more_eq_dstate [OF tu(6)]
      from inv tu have "caches_ok t" "splices_ok t"
        by (simp_all add: compiling_def caches_ok_def splices_ok_def)
      moreover from fr nf1 s2f tu have "next_frag s \<le> next_frag t"
        by (simp add: compile_frame_def)
      moreover from fr dt s2f d1 have "msgs t = msgs s" "queue t = queue s" "trace t = trace s"
        "mem t = mem s" "pre_transform_err t = pre_transform_err s"
        "dma_rx_CS t = dma_rx_CS s" "dma_rx_ADDR t = dma_rx_ADDR s"
        "count_dma_started t = count_dma_started s"
        "count_dma_still_running t = count_dma_still_running s"
        by (simp_all add: compile_frame_def)
      moreover have "merged t f = merged s f \<and> frags t f = frags s f"
        if "f < next_frag s" "f \<notin> set (idle (caches s fragment_merged))" for f
      proof -
        from that mp(4) have ne: "f \<noteq> mp" by auto
        from that nf1 have "f < next_frag s2" by (simp add: s2f)
        with fr ne have "merged u f = merged s2 f" "frags u f = frags s2 f"
          by (simp_all add: compile_frame_def)
        with ne s2f d1 old1 [OF that(1)] tu show ?thesis by simp
      qed
      moreover have "set (idle (caches t c)) \<subseteq> set (idle (caches s c))" for c
      proof -
        from fr have "set (idle (caches u c)) \<subseteq> set (idle (caches s2 c))"
          unfolding compile_frame_def by blast
        with sub1 [of c] tu(1) s2f(1) show ?thesis by auto
      qed
      moreover have "message (merged t mp) = Some m \<and> mp < next_frag t
            \<and> mp \<notin> set (idle (caches t fragment_merged)) \<and> links_set t mp
            \<and> (mp \<in> set (idle (caches s fragment_merged)) \<or> mp = next_frag s)"
        if "r = Some mp"
        using that rr inv fr mp(4) tu s2f
        by (simp add: compiling_def compile_frame_def links_set_def)
      ultimately show ?thesis using t rr by auto
    qed
    consider (a) "e3 \<noteq> 0" | (b) "e3 = 0" "e4 \<noteq> 0" | (c) "e3 = 0" "e4 = 0" by blast
    then show ?thesis
    proof cases
      case a
      with res have "bcm2835dma_spi_message_to_dma_fragment m fl ?g s
        = Returns (None, s3\<lparr>kmsg := kmsg s3 @ [''bcm2835dma_spi_message_to_dma_fragment: err'']\<rparr>)"
        by (simp add: message_to_dma_fragment_error_def)
      from fin [OF this inv3 f3] show ?thesis by simp
    next
      case b
      with res have "bcm2835dma_spi_message_to_dma_fragment m fl ?g s
        = Returns (None, s4\<lparr>kmsg := kmsg s4 @ [''bcm2835dma_spi_message_to_dma_fragment: err'']\<rparr>)"
        by (simp add: message_to_dma_fragment_error_def)
      from fin [OF this _ f4] D show ?thesis by simp
    next
      case c
      with res have "bcm2835dma_spi_message_to_dma_fragment m fl ?g s = Returns (Some mp, s5)"
        by simp
      from fin [OF this inv5 f5] l3 l5 D c show ?thesis by simp
    qed
  qed
qed

text \<open>Returning fragments and releasing a merged fragment keep the invariant.\<close>

lemma cache_return_kstate:
  "next_frag (dma_fragment_cache_return p s) = next_frag s"
  "allocateFragment (dma_fragment_cache_return p s) = allocateFragment s"
  by (simp_all add: dma_fragment_cache_return_def Let_def split: option.splits)

lemma cache_return_idle:
  "idle (caches (dma_fragment_cache_return p s) c)
     = (if cache (frags s p) = None then idle (caches s c)
        else if cache (frags s p) = Some c then p # removeAll p (idle (caches s c))
        else removeAll p (idle (caches s c)))"
  by (auto simp: dma_fragment_cache_return_def list_del_frag_def Let_def split: option.splits)

lemma cache_return_caches_ok:
  fixes s :: dstate
  assumes co: "caches_ok s" and pn: "p < next_frag s"
    and pl: "cache (frags s p) \<noteq> Some fragment_merged \<Longrightarrow>
               link_head (frags s p) \<noteq> None \<and> link_tail (frags s p) \<noteq> None"
  shows "caches_ok (dma_fragment_cache_return p s)"
  unfolding caches_ok_def
proof (intro conjI allI impI)
  let ?t = "dma_fragment_cache_return p s"
  fix d q assume q: "q \<in> set (idle (caches ?t d))"
  then have "(q = p \<and> cache (frags s p) = Some d) \<or> q \<in> set (idle (caches s d))"
    by (auto simp: cache_return_idle split: if_splits)
  then have a: "q < next_frag s \<and> cache (frags s q) = Some d
    \<and> (d \<noteq> fragment_merged \<longrightarrow> link_head (frags s q) \<noteq> None \<and> link_tail (frags s q) \<noteq> None)"
  proof
    assume "q = p \<and> cache (frags s p) = Some d"
    with pn pl show ?thesis by auto
  next
    assume "q \<in> set (idle (caches s d))"
    from caches_okD [OF co this] show ?thesis by simp
  qed
  then show "q < next_frag ?t" "cache (frags ?t q) = Some d"
    by (simp_all add: cache_return_frame cache_return_kstate)
  assume "d \<noteq> fragment_merged"
  with a show "link_head (frags ?t q) \<noteq> None" "link_tail (frags ?t q) \<noteq> None"
    by (simp_all add: cache_return_frame)
next
  fix d show "distinct (idle (caches (dma_fragment_cache_return p s) d))"
    using caches_ok_distinct [OF co, of d] by (simp add: cache_return_idle distinct_removeAll)
next
  fix n fr assume "allocateFragment (dma_fragment_cache_return p s) n = Some fr"
  with caches_ok_alloc [OF co]
  show "link_head fr \<noteq> None" "link_tail fr \<noteq> None"
    by (auto simp: cache_return_kstate)
qed

lemma fold_return_kstate:
  "next_frag (fold (\<lambda>(c, p, x). dma_fragment_cache_return p) xs s) = next_frag s
   \<and> allocateFragment (fold (\<lambda>(c, p, x). dma_fragment_cache_return p) xs s) = allocateFragment s"
  by (induction xs arbitrary: s) (simp_all add: cache_return_kstate split: prod.splits)

lemma fold_return_more:
  "kstate.more (fold (\<lambda>(c, p, x). dma_fragment_cache_return p) xs s) = kstate.more s"
  by (induction xs arbitrary: s) (simp_all add: cache_return_frame split: prod.splits)

lemma fold_return_caches_ok:
  fixes s :: dstate
  assumes "caches_ok s"
    and "\<And>c p x. (c, p, x) \<in> set xs \<Longrightarrow> p < next_frag s
           \<and> cache (frags s p) \<noteq> Some fragment_merged
           \<and> link_head (frags s p) \<noteq> None \<and> link_tail (frags s p) \<noteq> None"
  shows "caches_ok (fold (\<lambda>(c, p, x). dma_fragment_cache_return p) xs s)
     \<and> set (idle (caches (fold (\<lambda>(c, p, x). dma_fragment_cache_return p) xs s) fragment_merged))
         \<subseteq> set (idle (caches s fragment_merged))"
  using assms
proof (induction xs arbitrary: s)
  case Nil
  then show ?case by simp
next
  case (Cons a xs)
  obtain c p x where a: "a = (c, p, x)" by (cases a)
  let ?s1 = "dma_fragment_cache_return p s"
  from Cons.prems(2) [of c p x] a have p: "p < next_frag s"
    "cache (frags s p) \<noteq> Some fragment_merged"
    "link_head (frags s p) \<noteq> None \<and> link_tail (frags s p) \<noteq> None" by simp_all
  have co1: "caches_ok ?s1" using cache_return_caches_ok [OF Cons.prems(1) p(1)] p(3) by simp
  have sub1: "set (idle (caches ?s1 fragment_merged)) \<subseteq> set (idle (caches s fragment_merged))"
    using p(2) by (auto simp: cache_return_idle)
  have "caches_ok (fold (\<lambda>(c, p, x). dma_fragment_cache_return p) xs ?s1)
     \<and> set (idle (caches (fold (\<lambda>(c, p, x). dma_fragment_cache_return p) xs ?s1) fragment_merged))
         \<subseteq> set (idle (caches ?s1 fragment_merged))"
  proof (rule Cons.IH [OF co1])
    fix c' p' x' assume "(c', p', x') \<in> set xs"
    with Cons.prems(2) [of c' p' x']
    show "p' < next_frag ?s1
           \<and> cache (frags ?s1 p') \<noteq> Some fragment_merged
           \<and> link_head (frags ?s1 p') \<noteq> None \<and> link_tail (frags ?s1 p') \<noteq> None"
      by (simp add: cache_return_frame cache_return_kstate)
  qed
  with sub1 a show ?case by auto
qed

lemma release_inv:
  assumes co: "caches_ok s" and so: "splices_ok s" and fn: "f < next_frag s"
    and fl: "links_set s f"
  shows "caches_ok (dma_fragment_release f s)"
    "splices_ok (dma_fragment_release f s)"
    "set (idle (caches (dma_fragment_release f s) fragment_merged))
       \<subseteq> insert f (set (idle (caches s fragment_merged)))"
    "next_frag (dma_fragment_release f s) = next_frag s"
    "\<And>g. g \<noteq> f \<Longrightarrow> merged (dma_fragment_release f s) g = merged s g"
    "pre_transform_err (dma_fragment_release f s) = pre_transform_err s"
proof -
  let ?s1 = "fold (\<lambda>(c, p, x). dma_fragment_cache_return p) (spliced (merged s f)) s"
  let ?s2 = "dma_fragment_cache_return f ?s1"
  have t: "dma_fragment_release f s = ?s2\<lparr>merged := (merged ?s2)(f := (merged ?s2 f)\<lparr>spliced := []\<rparr>),
            trace := trace ?s2 @ [Released f]\<rparr>"
    by (simp add: dma_fragment_release_def Let_def)
  have f1: "frags ?s1 = frags s" "merged ?s1 = merged s" using fold_return_frame by blast+
  have k1: "next_frag ?s1 = next_frag s" "allocateFragment ?s1 = allocateFragment s"
    using fold_return_kstate by blast+
  have "caches_ok ?s1 \<and> set (idle (caches ?s1 fragment_merged))
         \<subseteq> set (idle (caches s fragment_merged))"
    using splices_okD [OF so] by (intro fold_return_caches_ok [OF co]) blast
  then have co1: "caches_ok ?s1" and sub1: "set (idle (caches ?s1 fragment_merged))
         \<subseteq> set (idle (caches s fragment_merged))" by blast+
  have co2: "caches_ok ?s2"
    using fl fn by (intro cache_return_caches_ok [OF co1]) (simp_all add: f1 k1 links_set_def)
  have sub2: "set (idle (caches ?s2 fragment_merged)) \<subseteq> insert f (set (idle (caches s fragment_merged)))"
    using sub1 by (auto simp: cache_return_idle split: if_splits)
  have f2: "frags ?s2 = frags s" "merged ?s2 = merged s" "next_frag ?s2 = next_frag s"
    by (simp_all add: cache_return_frame cache_return_dstate cache_return_kstate f1 k1)
  show "caches_ok (dma_fragment_release f s)"
    using co2 unfolding t by (simp add: caches_ok_def)
  show "splices_ok (dma_fragment_release f s)"
    unfolding splices_ok_def
  proof (intro allI impI)
    fix g c p x assume "(c, p, x) \<in> set (spliced (merged (dma_fragment_release f s) g))"
    then have "(c, p, x) \<in> set (spliced (merged s g))"
      unfolding t by (cases "g = f") (simp_all add: f2)
    from splices_okD [OF so this]
    show "p < next_frag (dma_fragment_release f s)
      \<and> cache (frags (dma_fragment_release f s) p) \<noteq> Some fragment_merged
      \<and> link_head (frags (dma_fragment_release f s) p) \<noteq> None
      \<and> link_tail (frags (dma_fragment_release f s) p) \<noteq> None"
      unfolding t by (simp add: f2)
  qed
  show "set (idle (caches (dma_fragment_release f s) fragment_merged))
       \<subseteq> insert f (set (idle (caches s fragment_merged)))"
    using sub2 unfolding t by simp
  show "next_frag (dma_fragment_release f s) = next_frag s" unfolding t by (simp add: f2)
  show "\<And>g. g \<noteq> f \<Longrightarrow> merged (dma_fragment_release f s) g = merged s g"
    unfolding t by (simp add: f2)
  have "kstate.more ?s2 = kstate.more s"
    by (simp add: cache_return_frame fold_return_more)
  from more_eq_dstate(6) [OF this]
  show "pre_transform_err (dma_fragment_release f s) = pre_transform_err s"
    unfolding t by simp
qed

text \<open>The scheduler, the completion of one message and the reclaim loop.\<close>

lemma held_okI:
  assumes "\<And>m. holds_fragment s m \<Longrightarrow>
     \<exists>f. state (msgs s m) = Some f \<and> message (merged s f) = Some m
           \<and> f < next_frag s \<and> f \<notin> set (idle (caches s fragment_merged))
           \<and> link_head (frags s f) \<noteq> None \<and> link_tail (frags s f) \<noteq> None"
  shows "held_ok s"
  using assms unfolding held_ok_def by blast

lemma caches_ok_cong:
  "caches t = caches s \<Longrightarrow> frags t = frags s \<Longrightarrow> next_frag t = next_frag s \<Longrightarrow>
   allocateFragment t = allocateFragment s \<Longrightarrow> caches_ok t = caches_ok s"
  by (simp add: caches_ok_def)

lemma splices_ok_cong:
  "merged t = merged s \<Longrightarrow> frags t = frags s \<Longrightarrow> next_frag t = next_frag s \<Longrightarrow>
   splices_ok t = splices_ok s"
  by (simp add: splices_ok_def)

lemma schedule_effect:
  assumes nq: "m \<notin> set (queue s)" and f: "state (msgs s m) = Some f"
    and h: "link_head (frags s f) \<noteq> None"
    and l: "queue s \<noteq> [] \<Longrightarrow>
              \<exists>lf. state (msgs s (last (queue s))) = Some lf \<and> link_tail (frags s lf) \<noteq> None"
  shows "\<exists>t. bcm2835dma_schedule_dma_fragment m s = Returns (0, t)
     \<and> queue t = queue s @ [m] \<and> trace t = trace s \<and> msgs t = msgs s
     \<and> merged t = merged s \<and> frags t = frags s \<and> caches t = caches s
     \<and> next_frag t = next_frag s \<and> allocateFragment t = allocateFragment s
     \<and> mem t = mem s \<and> pre_transform_err t = pre_transform_err s"
proof -
  from h obtain hh where hh: "link_head (frags s f) = Some hh" by auto
  show ?thesis
  proof (cases "queue s = []")
    case True
    then show ?thesis using f hh nq
      by (simp add: bcm2835dma_schedule_dma_fragment_def Let_def)
  next
    case False
    from l [OF this] obtain lf lt where "state (msgs s (last (queue s))) = Some lf"
      "link_tail (frags s lf) = Some lt" by auto
    then show ?thesis using False f hh nq
      by (simp add: bcm2835dma_schedule_dma_fragment_def bcm2835_link_dma_link_def Let_def)
  qed
qed

lemma release_message_inv:
  assumes inv: "driver_inv s" and q: "queue s = m # rest"
  shows "\<exists>f s1. state (msgs s m) = Some f \<and> release_message m f s = Returns s1
     \<and> driver_inv s1 \<and> queue s1 = rest \<and> trace s1 = trace s @ completion_entries s m
     \<and> same_messages s s1 \<and> same_chains s s1 \<and> mem s1 = mem s"
proof -
  from inv have co: "caches_ok s" and so: "splices_ok s" and ho: "held_ok s"
    and dq: "distinct (queue s)" by (simp_all add: driver_inv_def)
  from q have "holds_fragment s m" by (simp add: holds_fragment_def)
  from held_okD [OF ho this] obtain f where f: "state (msgs s m) = Some f"
    "message (merged s f) = Some m" "f < next_frag s"
    "f \<notin> set (idle (caches s fragment_merged))"
    "link_head (frags s f) \<noteq> None" "link_tail (frags s f) \<noteq> None" by blast
  from dq q have rq: "removeAll m (queue s) = rest" "m \<notin> set rest" "distinct rest" by simp_all
  define s3 where "s3 = s\<lparr>queue := rest, trace := trace s @ [Dequeued m],
      msgs := (msgs s)(m := (msgs s m)\<lparr>status := 0, actual_length := 1\<rparr>),
      trace := trace s @ [Dequeued m, PostTransforms f]\<rparr>"
  define s4 where "s4 = (if \<not> is_optimized (msgs s m) then dma_fragment_release f s3 else s3)"
  define s5 where "s5 = (if complete (msgs s m)
                     then s4\<lparr>trace := trace s4 @ [CompleteCalled m]\<rparr> else s4)"
  have s3f: "caches s3 = caches s" "frags s3 = frags s" "next_frag s3 = next_frag s"
    "allocateFragment s3 = allocateFragment s" "merged s3 = merged s" "queue s3 = rest"
    "mem s3 = mem s" "pre_transform_err s3 = pre_transform_err s"
    "trace s3 = trace s @ [Dequeued m, PostTransforms f]"
    "\<And>m'. state (msgs s3 m') = state (msgs s m')"
    "\<And>m'. is_optimized (msgs s3 m') = is_optimized (msgs s m')"
    "\<And>m'. complete (msgs s3 m') = complete (msgs s m')"
    "\<And>m'. transfers (msgs s3 m') = transfers (msgs s m')"
    by (simp_all add: s3_def)
  have co3: "caches_ok s3" using co s3f caches_ok_cong [of s3 s] by simp
  have so3: "splices_ok s3" using so s3f splices_ok_cong [of s3 s] by simp
  have rel: "release_message m f s = Returns s5"
    using f(2) rq(1)
    by (simp add: release_message_def Let_def s5_def s4_def s3_def release_frame)
  have s4f: "caches_ok s4" "splices_ok s4" "frags s4 = frags s" "next_frag s4 = next_frag s"
    "queue s4 = rest" "mem s4 = mem s" "pre_transform_err s4 = pre_transform_err s"
    "\<And>m'. msgs s4 m' = msgs s3 m'"
    "\<And>g. message (merged s4 g) = message (merged s g)"
    "\<And>g. complete_data (merged s4 g) = complete_data (merged s g)"
    "trace s4 = trace s @ [Dequeued m, PostTransforms f]
        @ (if is_optimized (msgs s m) then [] else [Released f])"
    "set (idle (caches s4 fragment_merged))
       \<subseteq> (if is_optimized (msgs s m) then {} else {f}) \<union> set (idle (caches s fragment_merged))"
    using co3 so3 s3f release_inv [of s3 f] f(3,5,6)
    by (auto simp: s4_def release_frame links_set_def)
  have s5f: "caches s5 = caches s4" "frags s5 = frags s4" "next_frag s5 = next_frag s4"
    "allocateFragment s5 = allocateFragment s4" "merged s5 = merged s4" "queue s5 = queue s4"
    "mem s5 = mem s4" "pre_transform_err s5 = pre_transform_err s4" "msgs s5 = msgs s4"
    "trace s5 = trace s4 @ (if complete (msgs s m) then [CompleteCalled m] else [])"
    by (simp_all add: s5_def)
  have co5: "caches_ok s5" using s4f(1) s5f caches_ok_cong [of s5 s4] by simp
  have so5: "splices_ok s5" using s4f(2) s5f splices_ok_cong [of s5 s4] by simp
  have ho5: "held_ok s5"
  proof (rule held_okI)
    fix m' assume h5: "holds_fragment s5 m'"
    then have hs: "holds_fragment s m'"
      using q by (auto simp: holds_fragment_def s5f s4f s3f)
    from held_okD [OF ho hs] obtain f' where f': "state (msgs s m') = Some f'"
      "message (merged s f') = Some m'" "f' < next_frag s"
      "f' \<notin> set (idle (caches s fragment_merged))"
      "link_head (frags s f') \<noteq> None" "link_tail (frags s f') \<noteq> None" by blast
    have "f' \<notin> set (idle (caches s5 fragment_merged))"
    proof (cases "is_optimized (msgs s m)")
      case True
      with s4f(12) f'(4) show ?thesis by (auto simp: s5f)
    next
      case False
      with h5 rq(2) have "m' \<noteq> m" by (auto simp: holds_fragment_def s5f s4f s3f)
      with f'(2) f(2) have "f' \<noteq> f" by auto
      with s4f(12) f'(4) False show ?thesis by (auto simp: s5f)
    qed
    with f' show "\<exists>f. state (msgs s5 m') = Some f \<and> message (merged s5 f) = Some m'
           \<and> f < next_frag s5 \<and> f \<notin> set (idle (caches s5 fragment_merged))
           \<and> link_head (frags s5 f) \<noteq> None \<and> link_tail (frags s5 f) \<noteq> None"
      by (simp add: s5f s4f s3f)
  qed
  have "driver_inv s5" using co5 so5 ho5 rq(3) by (simp add: driver_inv_def s5f s4f)
  moreover have "trace s5 = trace s @ completion_entries s m"
    using f(1) by (simp add: s5f s4f completion_entries_def)
  moreover have "same_messages s s5" by (simp add: same_messages_def s5f s4f s3f)
  moreover have "same_chains s s5" by (simp add: same_chains_def s5f s4f s3f)
  ultimately show ?thesis using f(1) rel by (simp add: s5f s4f)
qed


lemma same_chains_refl: "same_chains s s"
  by (simp add: same_chains_def)

lemma same_chains_trans: "same_chains s t \<Longrightarrow> same_chains t u \<Longrightarrow> same_chains s u"
  by (simp add: same_chains_def)

lemma same_chains_ready: "same_chains s t \<Longrightarrow> msg_ready t m = msg_ready s m"
  by (simp add: same_chains_def msg_ready_def split: option.splits)

lemma same_chains_pending:
  "same_chains s t \<Longrightarrow> mem t = mem s \<Longrightarrow> msg_pending t m = msg_pending s m"
  by (simp add: same_chains_def msg_pending_def sentinel_pending_def split: option.splits)

lemma same_messages_refl: "same_messages s s"
  by (simp add: same_messages_def)

lemma same_messages_trans: "same_messages s t \<Longrightarrow> same_messages t u \<Longrightarrow> same_messages s u"
  by (simp add: same_messages_def)

lemma completion_entries_cong:
  "same_messages s t \<Longrightarrow> same_chains s t \<Longrightarrow> completion_entries t m = completion_entries s m"
  by (simp add: same_messages_def same_chains_def completion_entries_def split: option.splits)

lemma release_loop_inv:
  assumes "driver_inv s" "length (queue s) < n"
  shows "\<exists>s'. bcm2835dma_release_cb_chain_complete n s = Returns s' \<and> driver_inv s'
     \<and> queue s' = dropWhile (\<lambda>m. \<not> msg_pending s m) (queue s)
     \<and> trace s' = trace s @ concat (map (completion_entries s)
                                  (takeWhile (\<lambda>m. \<not> msg_pending s m) (queue s)))
     \<and> same_messages s s' \<and> same_chains s s' \<and> mem s' = mem s"
  using assms
proof (induction n arbitrary: s)
  case 0
  then show ?case by simp
next
  case (Suc n)
  show ?case
  proof (cases "queue s")
    case Nil
    then show ?thesis using Suc.prems(1)
      by (simp add: same_chains_refl same_messages_refl)
  next
    case (Cons m rest)
    from release_message_inv [OF Suc.prems(1) Cons] obtain f s1 where
      f: "state (msgs s m) = Some f" and s1: "release_message m f s = Returns s1"
        "driver_inv s1" "queue s1 = rest" "trace s1 = trace s @ completion_entries s m"
        "same_messages s s1" "same_chains s s1" "mem s1 = mem s" by blast
    show ?thesis
    proof (cases "sentinel_pending s f")
      case True
      then show ?thesis using Cons f Suc.prems(1)
        by (simp add: msg_pending_def same_chains_refl same_messages_refl)
    next
      case False
      have "length (queue s1) < n" using Suc.prems(2) Cons s1(3) by simp
      from Suc.IH [OF s1(2) this] obtain s' where
        s': "bcm2835dma_release_cb_chain_complete n s1 = Returns s'" "driver_inv s'"
          "queue s' = dropWhile (\<lambda>m. \<not> msg_pending s1 m) (queue s1)"
          "trace s' = trace s1 @ concat (map (completion_entries s1)
                                  (takeWhile (\<lambda>m. \<not> msg_pending s1 m) (queue s1)))"
          "same_messages s1 s'" "same_chains s1 s'" "mem s' = mem s1" by blast
      have pend: "(\<lambda>m. \<not> msg_pending s1 m) = (\<lambda>m. \<not> msg_pending s m)"
        using same_chains_pending [OF s1(6) s1(7)] by simp
      have ce: "completion_entries s1 = completion_entries s"
        using completion_entries_cong [OF s1(5) s1(6)] by (intro ext)
      have np: "\<not> msg_pending s m" using False f by (simp add: msg_pending_def)
      have "bcm2835dma_release_cb_chain_complete (Suc n) s = Returns s'"
        using Cons f False s1(1) s'(1) by simp
      moreover have "queue s' = dropWhile (\<lambda>m. \<not> msg_pending s m) (queue s)"
        using s'(3) pend s1(3) Cons np by simp
      moreover have "trace s' = trace s @ concat (map (completion_entries s)
                                  (takeWhile (\<lambda>m. \<not> msg_pending s m) (queue s)))"
        using s'(4) s1(4) pend ce s1(3) Cons np by simp
      moreover have "same_chains s s'" using s1(6) s'(6) by (rule same_chains_trans)
      moreover have "same_messages s s'" using s1(5) s'(5) by (rule same_messages_trans)
      moreover have "mem s' = mem s" using s1(7) s'(7) by simp
      ultimately show ?thesis using s'(2) by blast
    qed
  qed
qed

text \<open>A submission through \<open>bcm2835dma_spi_transfer\<close> keeps the invariant on every path.\<close>

lemma held_ok_ex:
  assumes "held_ok s" "holds_fragment s m"
  shows "\<exists>f. state (msgs s m) = Some f \<and> message (merged s f) = Some m
           \<and> f < next_frag s \<and> f \<notin> set (idle (caches s fragment_merged))
           \<and> link_head (frags s f) \<noteq> None \<and> link_tail (frags s f) \<noteq> None"
  using assms unfolding held_ok_def by blast

lemma held_ok_transfer:
  assumes ho: "held_ok s"
    and hs: "\<And>m'. holds_fragment u m' \<Longrightarrow> m' \<noteq> m \<Longrightarrow> holds_fragment s m'"
    and st: "\<And>m'. m' \<noteq> m \<Longrightarrow> state (msgs u m') = state (msgs s m')"
    and fr: "\<And>f. f < next_frag s \<Longrightarrow> f \<notin> set (idle (caches s fragment_merged)) \<Longrightarrow>
               message (merged u f) = message (merged s f) \<and> frags u f = frags s f
               \<and> f \<notin> set (idle (caches u fragment_merged))"
    and nf: "next_frag s \<le> next_frag u"
    and m: "holds_fragment u m \<Longrightarrow>
       \<exists>f. state (msgs u m) = Some f \<and> message (merged u f) = Some m
           \<and> f < next_frag u \<and> f \<notin> set (idle (caches u fragment_merged))
           \<and> link_head (frags u f) \<noteq> None \<and> link_tail (frags u f) \<noteq> None"
  shows "held_ok u"
proof (rule held_okI)
  fix m' assume h: "holds_fragment u m'"
  show "\<exists>f. state (msgs u m') = Some f \<and> message (merged u f) = Some m'
           \<and> f < next_frag u \<and> f \<notin> set (idle (caches u fragment_merged))
           \<and> link_head (frags u f) \<noteq> None \<and> link_tail (frags u f) \<noteq> None"
  proof (cases "m' = m")
    case True
    with h m show ?thesis by simp
  next
    case False
    from held_okD [OF ho hs [OF h False]] obtain f where f: "state (msgs s m') = Some f"
      "message (merged s f) = Some m'" "f < next_frag s"
      "f \<notin> set (idle (caches s fragment_merged))"
      "link_head (frags s f) \<noteq> None" "link_tail (frags s f) \<noteq> None" by blast
    with fr [OF f(3,4)] st [OF False] nf show ?thesis by simp
  qed
qed

lemma trace_projections_released:
  "dequeued (tr @ [Released f]) = dequeued tr"
  "post_transformed (tr @ [Released f]) = post_transformed tr"
  "called_back (tr @ [Released f]) = called_back tr"
  by (induction tr rule: dequeued.induct) simp_all

lemma spi_transfer_inv:
  assumes inv: "driver_inv s" and sub: "submittable s m"
  shows "\<exists>r t. bcm2835dma_spi_transfer m s = Returns (r, t) \<and> driver_inv t
     \<and> same_messages s t
     \<and> dequeued (trace t) = dequeued (trace s)
     \<and> post_transformed (trace t) = post_transformed (trace s)
     \<and> called_back (trace t) = called_back (trace s)
     \<and> (\<forall>m'. m' \<in> set (queue s) \<longrightarrow> state (msgs t m') = state (msgs s m'))
     \<and> (r = 0 \<longrightarrow> queue t = queue s @ [m] \<and> state (msgs t m) \<noteq> None)
     \<and> (r \<noteq> 0 \<longrightarrow> queue t = queue s)"
proof -
  from inv have co: "caches_ok s" and so: "splices_ok s" and ho: "held_ok s"
    and dq: "distinct (queue s)" by (simp_all add: driver_inv_def)
  from sub have nq: "m \<notin> set (queue s)" by (simp add: submittable_def)
  have last_held: "\<exists>lf. state (msgs s (last (queue s))) = Some lf
      \<and> lf < next_frag s \<and> lf \<notin> set (idle (caches s fragment_merged))
      \<and> link_tail (frags s lf) \<noteq> None \<and> last (queue s) \<noteq> m" if "queue s \<noteq> []"
  proof -
    from that have l: "last (queue s) \<in> set (queue s)" by simp
    then have "holds_fragment s (last (queue s))" by (simp add: holds_fragment_def)
    from held_okD [OF ho this] l nq show ?thesis by metis
  qed
  show ?thesis
  proof (cases "is_optimized (msgs s m)")
    case True
    with sub obtain f where f: "state (msgs s m) = Some f" "pre_transform_err s f = 0"
      by (auto simp: submittable_def split: option.splits)
    from True have "holds_fragment s m" by (simp add: holds_fragment_def)
    from held_okD [OF ho this] f(1) have lh: "link_head (frags s f) \<noteq> None" by auto
    define s4 where "s4 = s\<lparr>msgs := (msgs s)(m := (msgs s m)\<lparr>actual_length := 0\<rparr>),
        count_spi_messages := count_spi_messages s + 1,
        count_spi_optimized_messages := count_spi_optimized_messages s + 1\<rparr>"
    have s4f: "caches s4 = caches s" "frags s4 = frags s" "next_frag s4 = next_frag s"
      "allocateFragment s4 = allocateFragment s" "merged s4 = merged s" "queue s4 = queue s"
      "mem s4 = mem s" "pre_transform_err s4 = pre_transform_err s" "trace s4 = trace s"
      "\<And>m'. state (msgs s4 m') = state (msgs s m')"
      "\<And>m'. is_optimized (msgs s4 m') = is_optimized (msgs s m')"
      "\<And>m'. complete (msgs s4 m') = complete (msgs s m')"
      "\<And>m'. transfers (msgs s4 m') = transfers (msgs s m')"
      by (simp_all add: s4_def)
    have "\<exists>t. bcm2835dma_schedule_dma_fragment m s4 = Returns (0, t)
     \<and> queue t = queue s4 @ [m] \<and> trace t = trace s4 \<and> msgs t = msgs s4
     \<and> merged t = merged s4 \<and> frags t = frags s4 \<and> caches t = caches s4
     \<and> next_frag t = next_frag s4 \<and> allocateFragment t = allocateFragment s4
     \<and> mem t = mem s4 \<and> pre_transform_err t = pre_transform_err s4"
      using nq f(1) lh last_held by (intro schedule_effect [where f = f]) (auto simp: s4f)
    then obtain t where t: "bcm2835dma_schedule_dma_fragment m s4 = Returns (0, t)"
      "queue t = queue s @ [m]" "trace t = trace s" "\<And>m'. msgs t m' = msgs s4 m'"
      "merged t = merged s" "frags t = frags s" "caches t = caches s"
      "next_frag t = next_frag s" "allocateFragment t = allocateFragment s"
      "mem t = mem s" "pre_transform_err t = pre_transform_err s"
      by (auto simp: s4f)
    have res: "bcm2835dma_spi_transfer m s = Returns (0, t)"
      using True f t(1)
      by (simp add: bcm2835dma_spi_transfer_def Let_def s4_def)
    have "caches_ok t" using co t caches_ok_cong [of t s] by simp
    moreover have "splices_ok t" using so t splices_ok_cong [of t s] by simp
    moreover have "held_ok t"
    proof (rule held_okI)
      fix m' assume "holds_fragment t m'"
      then have "holds_fragment s m'"
        using True by (auto simp: holds_fragment_def t s4f)
      from held_ok_ex [OF ho this]
      show "\<exists>f. state (msgs t m') = Some f \<and> message (merged t f) = Some m'
           \<and> f < next_frag t \<and> f \<notin> set (idle (caches t fragment_merged))
           \<and> link_head (frags t f) \<noteq> None \<and> link_tail (frags t f) \<noteq> None"
        by (simp add: t s4f)
    qed
    ultimately have "driver_inv t" using dq nq by (simp add: driver_inv_def t)
    moreover have "same_messages s t" by (simp add: same_messages_def t s4f)
    ultimately show ?thesis using res f(1) by (simp add: t s4f)
  next
    case False
    with sub have cm: "compilable (msgs s m)" by (simp add: submittable_def)
    from compile_effect [OF co so cm, where fl = 0] obtain r0 t0 where
      c: "bcm2835dma_spi_message_to_dma_fragment m 0 GFP_ATOMIC s = Returns (r0, t0)"
      and t0: "caches_ok t0" "splices_ok t0" "next_frag s \<le> next_frag t0"
        "msgs t0 = msgs s" "queue t0 = queue s" "trace t0 = trace s" "mem t0 = mem s"
        "pre_transform_err t0 = pre_transform_err s"
      and old: "\<And>f. f < next_frag s \<Longrightarrow> f \<notin> set (idle (caches s fragment_merged))
            \<Longrightarrow> merged t0 f = merged s f \<and> frags t0 f = frags s f"
      and sub0: "\<And>c. set (idle (caches t0 c)) \<subseteq> set (idle (caches s c))"
      and mpf: "\<And>mp. r0 = Some mp \<Longrightarrow> message (merged t0 mp) = Some m \<and> mp < next_frag t0
            \<and> mp \<notin> set (idle (caches t0 fragment_merged)) \<and> links_set t0 mp
            \<and> (mp \<in> set (idle (caches s fragment_merged)) \<or> mp = next_frag s)"
      by blast
    define s1 where "s1 = t0\<lparr>msgs := (msgs t0)(m := (msgs t0 m)\<lparr>state := r0\<rparr>)\<rparr>"
    have s1f: "caches s1 = caches t0" "frags s1 = frags t0" "next_frag s1 = next_frag t0"
      "allocateFragment s1 = allocateFragment t0" "merged s1 = merged t0" "queue s1 = queue s"
      "mem s1 = mem s" "pre_transform_err s1 = pre_transform_err s" "trace s1 = trace s"
      "state (msgs s1 m) = r0"
      "\<And>m'. m' \<noteq> m \<Longrightarrow> state (msgs s1 m') = state (msgs s m')"
      "\<And>m'. is_optimized (msgs s1 m') = is_optimized (msgs s m')"
      "\<And>m'. complete (msgs s1 m') = complete (msgs s m')"
      "\<And>m'. transfers (msgs s1 m') = transfers (msgs s m')"
      by (simp_all add: s1_def t0)
    have co1: "caches_ok s1" using t0(1) s1f caches_ok_cong [of s1 t0] by simp
    have so1: "splices_ok s1" using t0(2) s1f splices_ok_cong [of s1 t0] by simp
    have first: "(case bcm2835dma_spi_message_to_dma_fragment m 0 GFP_ATOMIC s of
                 Returns (mg, t) \<Rightarrow>
                   Returns (mg, t\<lparr>msgs := (msgs t)(m := (msgs t m)\<lparr>state := mg\<rparr>)\<rparr>)
               | NullDeref \<Rightarrow> NullDeref
               | OutOfFuel \<Rightarrow> OutOfFuel
               | ListCorrupt \<Rightarrow> ListCorrupt) = Returns (r0, s1)"
      by (simp add: c s1_def)
    show ?thesis
    proof (cases r0)
      case None
      have res: "bcm2835dma_spi_transfer m s = Returns (- ENOMEM, s1)"
        unfolding bcm2835dma_spi_transfer_def using False by (simp add: first None)
      have "held_ok s1"
      proof (rule held_ok_transfer [OF ho, where m = m])
        fix m' assume "holds_fragment s1 m'" "m' \<noteq> m"
        then show "holds_fragment s m'" by (simp add: holds_fragment_def s1f)
      next
        fix m' assume "m' \<noteq> m" then show "state (msgs s1 m') = state (msgs s m')"
          by (simp add: s1f)
      next
        fix f assume "f < next_frag s" "f \<notin> set (idle (caches s fragment_merged))"
        with old [of f] sub0 [of fragment_merged]
        show "message (merged s1 f) = message (merged s f) \<and> frags s1 f = frags s f
               \<and> f \<notin> set (idle (caches s1 fragment_merged))" by (auto simp: s1f)
      next
        show "next_frag s \<le> next_frag s1" using t0(3) by (simp add: s1f)
      next
        assume "holds_fragment s1 m"
        with False nq have False by (simp add: holds_fragment_def s1f)
        then show "\<exists>f. state (msgs s1 m) = Some f \<and> message (merged s1 f) = Some m
           \<and> f < next_frag s1 \<and> f \<notin> set (idle (caches s1 fragment_merged))
           \<and> link_head (frags s1 f) \<noteq> None \<and> link_tail (frags s1 f) \<noteq> None" ..
      qed
      with co1 so1 dq have "driver_inv s1" by (simp add: driver_inv_def s1f)
      moreover have "same_messages s s1" by (simp add: same_messages_def s1f)
      moreover have "\<forall>m'. m' \<in> set (queue s) \<longrightarrow> state (msgs s1 m') = state (msgs s m')"
        by (metis nq s1f(11))
      ultimately show ?thesis using res by (simp add: s1f ENOMEM_def)
    next
      case (Some mp)
      from mpf [OF Some] have mp: "message (merged t0 mp) = Some m" "mp < next_frag t0"
        "mp \<notin> set (idle (caches t0 fragment_merged))" "links_set t0 mp"
        "mp \<in> set (idle (caches s fragment_merged)) \<or> mp = next_frag s" by simp_all
      define s2 where "s2 = s1\<lparr>msgs := (msgs s1)(m := (msgs s1 m)\<lparr>actual_length := 0\<rparr>)\<rparr>"
      have s2f: "caches s2 = caches t0" "frags s2 = frags t0" "next_frag s2 = next_frag t0"
        "allocateFragment s2 = allocateFragment t0" "merged s2 = merged t0" "queue s2 = queue s"
        "mem s2 = mem s" "pre_transform_err s2 = pre_transform_err s" "trace s2 = trace s"
        "state (msgs s2 m) = Some mp"
        "\<And>m'. m' \<noteq> m \<Longrightarrow> state (msgs s2 m') = state (msgs s m')"
        "\<And>m'. is_optimized (msgs s2 m') = is_optimized (msgs s m')"
        "\<And>m'. complete (msgs s2 m') = complete (msgs s m')"
        "\<And>m'. transfers (msgs s2 m') = transfers (msgs s m')"
        by (simp_all add: s2_def s1f Some)
      have co2: "caches_ok s2" using t0(1) s2f caches_ok_cong [of s2 t0] by simp
      have so2: "splices_ok s2" using t0(2) s2f splices_ok_cong [of s2 t0] by simp
      show ?thesis
      proof (cases "pre_transform_err s mp = 0")
        case pf: False
        define s2k where "s2k = s2\<lparr>kmsg := kmsg s2 @ [''spi_transfer_failed'']\<rparr>"
        define t where "t = dma_fragment_release mp s2k"
        have kf: "caches s2k = caches s2" "frags s2k = frags s2" "next_frag s2k = next_frag s2"
          "allocateFragment s2k = allocateFragment s2" "merged s2k = merged s2"
          "msgs s2k = msgs s2" "queue s2k = queue s2" "trace s2k = trace s2"
          "pre_transform_err s2k = pre_transform_err s2"
          by (simp_all add: s2k_def)
        have cok: "caches_ok s2k" using co2 kf caches_ok_cong [of s2k s2] by simp
        have sok: "splices_ok s2k" using so2 kf splices_ok_cong [of s2k s2] by simp
        have res: "bcm2835dma_spi_transfer m s = Returns (- EPERM, t)"
          unfolding bcm2835dma_spi_transfer_def using False pf
          by (simp add: first Some Let_def s2_def [symmetric] s2f s1f s2k_def t_def)
        have mpk: "mp < next_frag s2k" "links_set s2k mp"
          using mp by (simp_all add: kf s2f links_set_def)
        note ri = release_inv [OF cok sok mpk, folded t_def]
        note rf = release_frame [of mp s2k, folded t_def]
        have "held_ok t"
        proof (rule held_ok_transfer [OF ho, where m = m])
          fix m' assume "holds_fragment t m'" "m' \<noteq> m"
          then show "holds_fragment s m'" by (simp add: holds_fragment_def rf kf s2f)
        next
          fix m' assume "m' \<noteq> m" then show "state (msgs t m') = state (msgs s m')"
            by (simp add: rf kf s2f)
        next
          fix f assume f: "f < next_frag s" "f \<notin> set (idle (caches s fragment_merged))"
          with mp(5) have "f \<noteq> mp" by auto
          with f old [of f] sub0 [of fragment_merged] ri(3) ri(5) [of f]
          show "message (merged t f) = message (merged s f) \<and> frags t f = frags s f
               \<and> f \<notin> set (idle (caches t fragment_merged))"
            by (auto simp: rf kf s2f)
        next
          show "next_frag s \<le> next_frag t" using t0(3) by (simp add: ri kf s2f)
        next
          assume "holds_fragment t m"
          with False nq have False by (simp add: holds_fragment_def rf kf s2f)
          then show "\<exists>f. state (msgs t m) = Some f \<and> message (merged t f) = Some m
           \<and> f < next_frag t \<and> f \<notin> set (idle (caches t fragment_merged))
           \<and> link_head (frags t f) \<noteq> None \<and> link_tail (frags t f) \<noteq> None" ..
        qed
        with ri(1,2) dq have "driver_inv t" by (simp add: driver_inv_def rf kf s2f)
        moreover have "same_messages s t" by (simp add: same_messages_def rf ri kf s2f)
        moreover have "\<forall>m'. m' \<in> set (queue s) \<longrightarrow> state (msgs t m') = state (msgs s m')"
          unfolding rf kf by (metis nq s2f(11))
        ultimately show ?thesis using res
          by (simp add: rf kf s2f EPERM_def trace_projections_released)
      next
        case pt: True
        define s4 where "s4 = s2\<lparr>count_spi_messages := count_spi_messages s2 + 1\<rparr>"
        have s4f: "caches s4 = caches t0" "frags s4 = frags t0" "next_frag s4 = next_frag t0"
          "allocateFragment s4 = allocateFragment t0" "merged s4 = merged t0" "queue s4 = queue s"
          "mem s4 = mem s" "pre_transform_err s4 = pre_transform_err s" "trace s4 = trace s"
          "state (msgs s4 m) = Some mp"
          "\<And>m'. m' \<noteq> m \<Longrightarrow> state (msgs s4 m') = state (msgs s m')"
          "\<And>m'. is_optimized (msgs s4 m') = is_optimized (msgs s m')"
          "\<And>m'. complete (msgs s4 m') = complete (msgs s m')"
          "\<And>m'. transfers (msgs s4 m') = transfers (msgs s m')"
          by (simp_all add: s4_def s2f)
        have "\<exists>t. bcm2835dma_schedule_dma_fragment m s4 = Returns (0, t)
           \<and> queue t = queue s4 @ [m] \<and> trace t = trace s4 \<and> msgs t = msgs s4
           \<and> merged t = merged s4 \<and> frags t = frags s4 \<and> caches t = caches s4
           \<and> next_frag t = next_frag s4 \<and> allocateFragment t = allocateFragment s4
           \<and> mem t = mem s4 \<and> pre_transform_err t = pre_transform_err s4"
        proof (rule schedule_effect [where f = mp])
          show "m \<notin> set (queue s4)" using nq by (simp add: s4f)
          show "state (msgs s4 m) = Some mp" by (simp add: s4f)
          show "link_head (frags s4 mp) \<noteq> None" using mp(4) by (simp add: s4f links_set_def)
          assume "queue s4 \<noteq> []"
          then have "queue s \<noteq> []" by (simp add: s4f)
          from last_held [OF this] obtain lf where lf: "state (msgs s (last (queue s))) = Some lf"
            "lf < next_frag s" "lf \<notin> set (idle (caches s fragment_merged))"
            "link_tail (frags s lf) \<noteq> None" "last (queue s) \<noteq> m" by blast
          with old [of lf]
          show "\<exists>lf. state (msgs s4 (last (queue s4))) = Some lf
              \<and> link_tail (frags s4 lf) \<noteq> None"
            by (simp add: s4f)
        qed
        then obtain t where t: "bcm2835dma_schedule_dma_fragment m s4 = Returns (0, t)"
          "queue t = queue s @ [m]" "trace t = trace s" "\<And>m'. msgs t m' = msgs s4 m'"
          "merged t = merged t0" "frags t = frags t0" "caches t = caches t0"
          "next_frag t = next_frag t0" "allocateFragment t = allocateFragment t0"
          "mem t = mem s" "pre_transform_err t = pre_transform_err s"
          by (auto simp: s4f)
        have res: "bcm2835dma_spi_transfer m s = Returns (0, t)"
          unfolding bcm2835dma_spi_transfer_def using False pt
          by (simp add: first Some Let_def s2_def [symmetric] s2f s1f s4_def [symmetric] s4f t(1))
        have "caches_ok t" using t0(1) t caches_ok_cong [of t t0] by simp
        moreover have "splices_ok t" using t0(2) t splices_ok_cong [of t t0] by simp
        moreover have "held_ok t"
        proof (rule held_ok_transfer [OF ho, where m = m])
          fix m' assume "holds_fragment t m'" "m' \<noteq> m"
          then show "holds_fragment s m'" by (simp add: holds_fragment_def t s4f)
        next
          fix m' assume "m' \<noteq> m" then show "state (msgs t m') = state (msgs s m')"
            by (simp add: t s4f)
        next
          fix f assume "f < next_frag s" "f \<notin> set (idle (caches s fragment_merged))"
          with old [of f] sub0 [of fragment_merged]
          show "message (merged t f) = message (merged s f) \<and> frags t f = frags s f
               \<and> f \<notin> set (idle (caches t fragment_merged))" by (auto simp: t)
        next
          show "next_frag s \<le> next_frag t" using t0(3) by (simp add: t)
        next
          show "\<exists>f. state (msgs t m) = Some f \<and> message (merged t f) = Some m
           \<and> f < next_frag t \<and> f \<notin> set (idle (caches t fragment_merged))
           \<and> link_head (frags t f) \<noteq> None \<and> link_tail (frags t f) \<noteq> None"
            using mp by (simp add: t s4f links_set_def)
        qed
        ultimately have "driver_inv t" using dq nq by (simp add: driver_inv_def t)
        moreover have "same_messages s t" by (simp add: same_messages_def t s4f)
        moreover have "\<forall>m'. m' \<in> set (queue s) \<longrightarrow> state (msgs t m') = state (msgs s m')"
          unfolding t by (metis nq s4f(11))
        ultimately show ?thesis using res by (simp add: t s4f)
      qed
    qed
  qed
qed

section \<open>Completion in submission order\<close>

lemma post_transformed_append:
  "post_transformed (xs @ ys) = post_transformed xs @ post_transformed ys"
  by (induction xs rule: post_transformed.induct) simp_all

lemma called_back_append:
  "called_back (xs @ ys) = called_back xs @ called_back ys"
  by (induction xs rule: called_back.induct) simp_all

lemma in_flight_map:
  assumes "held_ok s"
  shows "in_flight s = map (\<lambda>m. (m, the (state (msgs s m)))) (queue s)"
proof -
  have "\<And>m. m \<in> set (queue s) \<Longrightarrow> \<exists>f. state (msgs s m) = Some f"
    using held_ok_ex [OF assms] by (auto simp: holds_fragment_def)
  then have "concat (map (\<lambda>m. case state (msgs s m) of None \<Rightarrow> [] | Some f \<Rightarrow> [(m, f)]) ms)
      = map (\<lambda>m. (m, the (state (msgs s m)))) ms" if "set ms \<subseteq> set (queue s)" for ms
    using that by (induction ms) (fastforce split: option.splits)+
  then show ?thesis by (simp add: in_flight_def)
qed

lemma completion_projections:
  assumes "\<And>m. m \<in> set ms \<Longrightarrow> \<exists>f. state (msgs s m) = Some f"
  shows "dequeued (concat (map (completion_entries s) ms)) = ms"
    and "post_transformed (concat (map (completion_entries s) ms))
           = map (\<lambda>m. the (state (msgs s m))) ms"
    and "called_back (concat (map (completion_entries s) ms))
           = filter (\<lambda>m. complete (msgs s m)) ms"
  using assms
  by (induction ms;
      fastforce simp: completion_entries_def dequeued_append post_transformed_append
        called_back_append)+

lemma driver_step_fifo:
  assumes inv: "driver_inv s" and ws: "well_submitted (e # es) s"
  shows "\<exists>s1 j. driver_step e s = Returns s1 \<and> driver_inv s1 \<and> same_messages s s1
     \<and> j \<le> length (in_flight s)
     \<and> in_flight s1 = drop j (in_flight s)
          @ (case e of Submit m \<Rightarrow> submit_result m s | Interrupt \<Rightarrow> [] | HwWrite a v \<Rightarrow> []
             | HwStatus v \<Rightarrow> [])
     \<and> dequeued (trace s1) = dequeued (trace s) @ map fst (take j (in_flight s))
     \<and> post_transformed (trace s1)
         = post_transformed (trace s) @ map snd (take j (in_flight s))
     \<and> called_back (trace s1)
         = called_back (trace s)
           @ filter (\<lambda>m. complete (msgs s m)) (map fst (take j (in_flight s)))"
proof -
  from inv have ho: "held_ok s" by (simp add: driver_inv_def)
  note ifs = in_flight_map [OF ho]
  show ?thesis
  proof (cases e)
    case (Submit m)
    with ws have "submittable s m" by simp
    from spi_transfer_inv [OF inv this] obtain r t where
      t: "bcm2835dma_spi_transfer m s = Returns (r, t)" "driver_inv t" "same_messages s t"
        "dequeued (trace t) = dequeued (trace s)"
        "post_transformed (trace t) = post_transformed (trace s)"
        "called_back (trace t) = called_back (trace s)"
        "\<forall>m'. m' \<in> set (queue s) \<longrightarrow> state (msgs t m') = state (msgs s m')"
        "r = 0 \<longrightarrow> queue t = queue s @ [m] \<and> state (msgs t m) \<noteq> None"
        "r \<noteq> 0 \<longrightarrow> queue t = queue s" by blast
    from t(2) have "held_ok t" by (simp add: driver_inv_def)
    note ift = in_flight_map [OF this]
    have old: "map (\<lambda>m. (m, the (state (msgs t m)))) (queue s) = in_flight s"
      using t(7) by (simp add: ifs)
    have "in_flight t = in_flight s @ submit_result m s"
    proof (cases "r = 0")
      case True
      with t(8) obtain f where "queue t = queue s @ [m]" "state (msgs t m) = Some f" by auto
      with True t(1) old show ?thesis by (simp add: ift submit_result_def)
    next
      case False
      with t(9) t(1) old show ?thesis by (simp add: ift submit_result_def)
    qed
    with t Submit show ?thesis
      by (intro exI [of _ t] exI [of _ 0]) (simp add: driver_step_def)
  next
    case Interrupt
    let ?P = "\<lambda>m. \<not> msg_pending s m"
    have "length (queue s) < Suc (length (queue s))" by simp
    from release_loop_inv [OF inv this] obtain t where
      t: "bcm2835dma_release_cb_chain_complete (Suc (length (queue s))) s = Returns t"
        "driver_inv t" "queue t = dropWhile ?P (queue s)"
        "trace t = trace s @ concat (map (completion_entries s) (takeWhile ?P (queue s)))"
        "same_messages s t" "same_chains s t" "mem t = mem s" by blast
    from t(2) have "held_ok t" by (simp add: driver_inv_def)
    note ift = in_flight_map [OF this]
    define j where "j = length (takeWhile ?P (queue s))"
    have tk: "takeWhile ?P (queue s) = take j (queue s)"
      and dr: "dropWhile ?P (queue s) = drop j (queue s)"
      unfolding j_def by (rule takeWhile_eq_take, rule dropWhile_eq_drop)
    have jl: "j \<le> length (in_flight s)"
      unfolding j_def ifs by (simp add: length_takeWhile_le)
    have st: "\<And>m. state (msgs t m) = state (msgs s m)"
      using t(6) by (simp add: same_chains_def)
    have ex: "\<And>m. m \<in> set (take j (queue s)) \<Longrightarrow> \<exists>f. state (msgs s m) = Some f"
      using held_ok_ex [OF ho] by (auto simp: holds_fragment_def dest: in_set_takeD)
    note cp = completion_projections [of "take j (queue s)" s, OF ex]
    have "in_flight t = drop j (in_flight s)"
      by (simp add: ift ifs t(3) dr st drop_map)
    moreover have "dequeued (trace t) = dequeued (trace s) @ map fst (take j (in_flight s))"
      by (simp add: t(4) tk dequeued_append cp ifs take_map comp_def)
    moreover have "post_transformed (trace t)
         = post_transformed (trace s) @ map snd (take j (in_flight s))"
      by (simp add: t(4) tk post_transformed_append cp ifs take_map comp_def)
    moreover have "called_back (trace t) = called_back (trace s)
           @ filter (\<lambda>m. complete (msgs s m)) (map fst (take j (in_flight s)))"
      by (simp add: t(4) tk called_back_append cp ifs take_map comp_def)
    ultimately show ?thesis using t(1,2,5) jl Interrupt
      by (intro exI [of _ t] exI [of _ j]) (simp add: driver_step_def)
  next
    case (HwWrite a v)
    let ?t = "s\<lparr>mem := (mem s)(a := v)\<rparr>"
    have "driver_inv ?t" using inv
      by (simp add: driver_inv_def caches_ok_def splices_ok_def held_ok_def holds_fragment_def)
    then show ?thesis using HwWrite
      by (intro exI [of _ ?t] exI [of _ 0])
         (simp add: driver_step_def same_messages_def in_flight_def)
  next
    case (HwStatus v)
    let ?t = "s\<lparr>dma_rx_CS := v\<rparr>"
    have "driver_inv ?t" using inv
      by (simp add: driver_inv_def caches_ok_def splices_ok_def held_ok_def holds_fragment_def)
    then show ?thesis using HwStatus
      by (intro exI [of _ ?t] exI [of _ 0])
         (simp add: driver_step_def same_messages_def in_flight_def)
  qed
qed

lemma drive_fifo:
  assumes "driver_inv s" "well_submitted es s"
  shows "\<exists>s' k. drive es s = Returns s' \<and> driver_inv s' \<and> same_messages s s'
     \<and> in_flight s' = drop k (in_flight s @ accepted es s)
     \<and> dequeued (trace s')
         = dequeued (trace s) @ map fst (take k (in_flight s @ accepted es s))
     \<and> post_transformed (trace s')
         = post_transformed (trace s) @ map snd (take k (in_flight s @ accepted es s))
     \<and> called_back (trace s')
         = called_back (trace s)
           @ filter (\<lambda>m. complete (msgs s m)) (map fst (take k (in_flight s @ accepted es s)))"
  using assms
proof (induction es arbitrary: s)
  case Nil
  then show ?case
    by (intro exI [of _ s] exI [of _ 0]) (simp add: same_messages_refl)
next
  case (Cons e es)
  define A where "A = (case e of Submit m \<Rightarrow> submit_result m s | Interrupt \<Rightarrow> []
             | HwWrite a v \<Rightarrow> [] | HwStatus v \<Rightarrow> [])"
  from driver_step_fifo [OF Cons.prems] obtain s1 j where
    s1: "driver_step e s = Returns s1" "driver_inv s1" "same_messages s s1"
      "j \<le> length (in_flight s)"
      "in_flight s1 = drop j (in_flight s) @ A"
      "dequeued (trace s1) = dequeued (trace s) @ map fst (take j (in_flight s))"
      "post_transformed (trace s1)
         = post_transformed (trace s) @ map snd (take j (in_flight s))"
      "called_back (trace s1)
         = called_back (trace s)
           @ filter (\<lambda>m. complete (msgs s m)) (map fst (take j (in_flight s)))"
    unfolding A_def by blast
  from Cons.prems(2) s1(1) have "well_submitted es s1" by simp
  from Cons.IH [OF s1(2) this] obtain s' k where
    s': "drive es s1 = Returns s'" "driver_inv s'" "same_messages s1 s'"
      "in_flight s' = drop k (in_flight s1 @ accepted es s1)"
      "dequeued (trace s')
         = dequeued (trace s1) @ map fst (take k (in_flight s1 @ accepted es s1))"
      "post_transformed (trace s')
         = post_transformed (trace s1) @ map snd (take k (in_flight s1 @ accepted es s1))"
      "called_back (trace s')
         = called_back (trace s1)
           @ filter (\<lambda>m. complete (msgs s1 m)) (map fst (take k (in_flight s1 @ accepted es s1)))"
    by blast
  define L where "L = in_flight s @ accepted (e # es) s"
  have L: "L = in_flight s @ A @ accepted es s1"
    by (simp add: L_def A_def s1(1))
  have L1: "in_flight s1 @ accepted es s1 = drop j L"
    using s1(4,5) by (simp add: L)
  have tj: "take j (in_flight s) = take j L" using s1(4) by (simp add: L)
  have tk: "take (j + k) L = take j L @ take k (drop j L)" by (simp add: take_add)
  have cm: "(\<lambda>m. complete (msgs s1 m)) = (\<lambda>m. complete (msgs s m))"
    using s1(3) by (simp add: same_messages_def)
  have "drive (e # es) s = Returns s'" using s1(1) s'(1) by simp
  moreover have "same_messages s s'" using s1(3) s'(3) by (rule same_messages_trans)
  moreover have "in_flight s' = drop (j + k) L"
    using s'(4) by (simp add: L1 add.commute)
  moreover have "dequeued (trace s') = dequeued (trace s) @ map fst (take (j + k) L)"
    using s'(5) s1(6) by (simp add: L1 tj tk)
  moreover have "post_transformed (trace s')
      = post_transformed (trace s) @ map snd (take (j + k) L)"
    using s'(6) s1(7) by (simp add: L1 tj tk)
  moreover have "called_back (trace s') = called_back (trace s)
           @ filter (\<lambda>m. complete (msgs s m)) (map fst (take (j + k) L))"
    using s'(7) s1(8) by (simp add: L1 tj tk cm)
  ultimately show ?case using s'(2) unfolding L_def by blast
qed

text \<open>
  C1.  Take any state of the driver that satisfies the invariant and any run
  of events (submissions through \<open>bcm2835dma_spi_transfer\<close>, which compiles
  the message unless it is optimized, interrupts, and writes of the
  hardware) in which every submission is of a message that is not on the
  queue and can be compiled or has been optimized; a message may be
  submitted again once it has completed.  Then the run returns, the
  invariant holds again, and the transactions that have completed are a
  prefix of the transactions in submission order (those in flight at the
  start, then the accepted submissions of the run): the messages were
  dequeued, their fragments had the post-DMA transforms run, and their
  callbacks were called, each in exactly that order, and the queue holds the
  rest in that order.  So no transaction is reported complete while an
  earlier one is pending.  One interrupt walks the queue from the head and
  stops at the first pending message: for every message before it the trace
  gets the block dequeue, post-DMA transforms, release unless optimized,
  callback if set, and the queue keeps the pending message and all behind it.
\<close>

theorem reclaim_completes_in_submission_order:
  assumes "driver_inv s" and "well_submitted es s"
  shows "(\<exists>s' k. drive es s = Returns s' \<and> driver_inv s'
      \<and> in_flight s' = drop k (in_flight s @ accepted es s)
      \<and> queue s' = map fst (drop k (in_flight s @ accepted es s))
      \<and> dequeued (trace s')
          = dequeued (trace s) @ map fst (take k (in_flight s @ accepted es s))
      \<and> post_transformed (trace s')
          = post_transformed (trace s) @ map snd (take k (in_flight s @ accepted es s))
      \<and> called_back (trace s')
          = called_back (trace s)
            @ filter (\<lambda>m. complete (msgs s m))
                (map fst (take k (in_flight s @ accepted es s))))
   \<and> (\<exists>t. driver_step Interrupt s = Returns t \<and> driver_inv t
      \<and> queue t = dropWhile (\<lambda>m. \<not> msg_pending s m) (queue s)
      \<and> trace t = trace s @ concat (map (completion_entries s)
                                 (takeWhile (\<lambda>m. \<not> msg_pending s m) (queue s))))"
proof
  from drive_fifo [OF assms] obtain s' k where
    r: "drive es s = Returns s'" "driver_inv s'"
      "in_flight s' = drop k (in_flight s @ accepted es s)"
      "dequeued (trace s')
          = dequeued (trace s) @ map fst (take k (in_flight s @ accepted es s))"
      "post_transformed (trace s')
          = post_transformed (trace s) @ map snd (take k (in_flight s @ accepted es s))"
      "called_back (trace s')
          = called_back (trace s)
            @ filter (\<lambda>m. complete (msgs s m))
                (map fst (take k (in_flight s @ accepted es s)))"
    by blast
  from r(2) have "held_ok s'" by (simp add: driver_inv_def)
  from in_flight_map [OF this] have "queue s' = map fst (in_flight s')"
    by (simp add: comp_def)
  with r show "\<exists>s' k. drive es s = Returns s' \<and> driver_inv s'
      \<and> in_flight s' = drop k (in_flight s @ accepted es s)
      \<and> queue s' = map fst (drop k (in_flight s @ accepted es s))
      \<and> dequeued (trace s')
          = dequeued (trace s) @ map fst (take k (in_flight s @ accepted es s))
      \<and> post_transformed (trace s')
          = post_transformed (trace s) @ map snd (take k (in_flight s @ accepted es s))
      \<and> called_back (trace s')
          = called_back (trace s)
            @ filter (\<lambda>m. complete (msgs s m))
                (map fst (take k (in_flight s @ accepted es s)))"
    by (intro exI [of _ s'] exI [of _ k]) simp
  have "length (queue s) < Suc (length (queue s))" by simp
  from release_loop_inv [OF assms(1) this]
  show "\<exists>t. driver_step Interrupt s = Returns t \<and> driver_inv t
      \<and> queue t = dropWhile (\<lambda>m. \<not> msg_pending s m) (queue s)
      \<and> trace t = trace s @ concat (map (completion_entries s)
                                 (takeWhile (\<lambda>m. \<not> msg_pending s m) (queue s)))"
    by (auto simp: driver_step_def)
qed

lemma running_inv: "driver_inv dstate_running"
  by (simp add: driver_inv_def caches_ok_def splices_ok_def held_ok_def holds_fragment_def
        dstate_running_def example_defs)

lemmas drive_defs = resubmit_events_def driver_step_def dstate_running_def example_defs
        compile_defs submit_defs reclaim_defs

lemma running_eval:
  "outcome_map (\<lambda>t. (dequeued (trace t), post_transformed (trace t), called_back (trace t),
        queue t)) (drive resubmit_events dstate_running)
     = Some ([1, 3, 1], [10, 100, 100], [1, 3, 1], [])"
  by (simp add: drive_defs)

lemma running_well_submitted: "well_submitted resubmit_events dstate_running"
  by (simp add: drive_defs submittable_def compilable_def)

lemma running_accepted:
  "in_flight dstate_running @ accepted resubmit_events dstate_running
     = [(1, 10), (3, 100), (1, 100)]"
  by (simp add: drive_defs in_flight_def submit_result_def)


theorem reclaim_completes_in_submission_order_witness:
  "driver_inv dstate_running \<and> well_submitted resubmit_events dstate_running
   \<and> in_flight dstate_running @ accepted resubmit_events dstate_running
        = [(1, 10), (3, 100), (1, 100)]
   \<and> (\<exists>s'. drive resubmit_events dstate_running = Returns s' \<and> driver_inv s'
          \<and> queue s' = []
          \<and> dequeued (trace s') = [1, 3, 1]
          \<and> post_transformed (trace s') = [10, 100, 100]
          \<and> called_back (trace s') = [1, 3, 1])"
proof -
  from reclaim_completes_in_submission_order [OF running_inv running_well_submitted]
  obtain s' where s': "drive resubmit_events dstate_running = Returns s'" "driver_inv s'"
    by blast
  from running_eval s' have "queue s' = []" "dequeued (trace s') = [1, 3, 1]"
    "post_transformed (trace s') = [10, 100, 100]" "called_back (trace s') = [1, 3, 1]"
    by (simp_all add: outcome_map_def)
  with s' running_inv running_well_submitted running_accepted show ?thesis by blast
qed

section \<open>Rejection of a message without transfers\<close>

lemma compile_msgs:
  assumes "bcm2835dma_spi_message_to_dma_fragment m fl g s = Returns (r, t)"
  shows "msgs t = msgs s \<and> queue t = queue s"
proof -
  obtain r0 s1 where a: "dma_fragment_cache_fetch fragment_merged g s = (r0, s1)"
    by (metis surj_pair)
  note f1 = cache_fetch_dstate [OF a]
  show ?thesis
  proof (cases r0)
    case None
    with assms a f1 show ?thesis
      by (simp add: bcm2835dma_spi_message_to_dma_fragment_def)
  next
    case (Some p)
    define s2 where "s2 = s1\<lparr>merged := (merged s1)(p :=
                         (merged s1 p)\<lparr>message := Some m, transfer := None,
                            last_transfer := None, complete_data := None,
                            needs_spi_setup := True\<rparr>),
                       frags := (frags s1)(p :=
                         (frags s1 p)\<lparr>link_head := None, link_tail := None\<rparr>)\<rparr>"
    have res: "bcm2835dma_spi_message_to_dma_fragment m fl g s
        = (case merge_transfers p g (transfers (msgs s2 m)) s2 of
                Returns (err, s3) \<Rightarrow>
                  if err \<noteq> 0 then Returns (message_to_dma_fragment_error err s3)
                  else
                    (case (if complete (msgs s3 m)
                           then spi_merged_dma_fragment_merge_fragment_cache
                                  fragment_trigger_irq p g s3
                           else (0, s3)) of
                       (err4, s4) \<Rightarrow>
                         if err4 \<noteq> 0 then Returns (message_to_dma_fragment_error err4 s4)
                         else Returns (Some p,
                                s4\<lparr>merged := (merged s4)(p :=
                                     (merged s4 p)\<lparr>transfer := None, last_transfer := None\<rparr>)\<rparr>))
              | NullDeref \<Rightarrow> NullDeref
              | OutOfFuel \<Rightarrow> OutOfFuel
              | ListCorrupt \<Rightarrow> ListCorrupt)"
      unfolding bcm2835dma_spi_message_to_dma_fragment_def a Some
      unfolding prod.case option.case s2_def [symmetric] Let_def
      by simp
    from assms obtain e3 s3 where
      m3: "merge_transfers p g (transfers (msgs s2 m)) s2 = Returns (e3, s3)"
      unfolding res by (cases "merge_transfers p g (transfers (msgs s2 m)) s2") auto
    note f3 = merge_transfers_message [OF m3, of p]
    obtain e4 s4 where m4: "(if complete (msgs s3 m)
                           then spi_merged_dma_fragment_merge_fragment_cache
                                  fragment_trigger_irq p g s3
                           else (0, s3)) = (e4, s4)" by (metis surj_pair)
    have f4: "msgs s4 = msgs s3 \<and> queue s4 = queue s3"
      using m4 by (auto split: if_splits dest: merge_fragment_cache_message [where f = p])
    from assms have "t = s3\<lparr>kmsg := kmsg s3 @ [''bcm2835dma_spi_message_to_dma_fragment: err'']\<rparr>
       \<or> t = s4\<lparr>kmsg := kmsg s4 @ [''bcm2835dma_spi_message_to_dma_fragment: err'']\<rparr>
       \<or> t = s4\<lparr>merged := (merged s4)(p :=
                                     (merged s4 p)\<lparr>transfer := None, last_transfer := None\<rparr>)\<rparr>"
      unfolding res m3 outcome.case prod.case m4
      by (auto simp: message_to_dma_fragment_error_def split: if_splits)
    with f3 f4 f1 show ?thesis by (auto simp: s2_def)
  qed
qed

lemma schedule_msgs:
  assumes "bcm2835dma_schedule_dma_fragment m s = Returns (r, t)"
  shows "msgs t = msgs s"
  using assms
  by (auto simp: bcm2835dma_schedule_dma_fragment_def bcm2835_link_dma_link_def Let_def
        split: if_splits option.splits outcome.splits)

lemma spi_transfer_messages:
  assumes "bcm2835dma_spi_transfer m s = Returns (r, t)"
  shows "transfers (msgs t m') = transfers (msgs s m')
     \<and> is_optimized (msgs t m') = is_optimized (msgs s m')"
proof -
  define st where "st = (if is_optimized (msgs s m) then Returns (state (msgs s m), s)
            else
              (case bcm2835dma_spi_message_to_dma_fragment m 0 GFP_ATOMIC s of
                 Returns (mg, t) \<Rightarrow>
                   Returns (mg, t\<lparr>msgs := (msgs t)(m := (msgs t m)\<lparr>state := mg\<rparr>)\<rparr>)
               | NullDeref \<Rightarrow> NullDeref
               | OutOfFuel \<Rightarrow> OutOfFuel
               | ListCorrupt \<Rightarrow> ListCorrupt))"
  from assms obtain r1 s1 where st: "st = Returns (r1, s1)"
    unfolding bcm2835dma_spi_transfer_def st_def [symmetric]
    by (cases st) auto
  have a: "transfers (msgs s1 m') = transfers (msgs s m')
     \<and> is_optimized (msgs s1 m') = is_optimized (msgs s m')"
  proof (cases "is_optimized (msgs s m)")
    case True
    with st show ?thesis by (simp add: st_def)
  next
    case False
    with st obtain t0 where c: "bcm2835dma_spi_message_to_dma_fragment m 0 GFP_ATOMIC s
        = Returns (r1, t0)" and s1: "s1 = t0\<lparr>msgs := (msgs t0)(m := (msgs t0 m)\<lparr>state := r1\<rparr>)\<rparr>"
      by (auto simp: st_def split: outcome.splits)
    from compile_msgs [OF c] s1 show ?thesis by simp
  qed
  from assms have b: "(case r1 of
        None \<Rightarrow> Returns (- ENOMEM, s1)
      | Some mp \<Rightarrow>
          (let s2 = s1\<lparr>msgs := (msgs s1)(m := (msgs s1 m)\<lparr>actual_length := 0\<rparr>)\<rparr> in
           if pre_transform_err s2 mp \<noteq> 0 then
             Returns (- EPERM,
               dma_fragment_release mp
                 (s2\<lparr>kmsg := kmsg s2 @ [''spi_transfer_failed'']\<rparr>))
           else
             (let s3 = s2\<lparr>count_spi_messages := count_spi_messages s2 + 1\<rparr>;
                  s4 = (if is_optimized (msgs s3 m)
                        then s3\<lparr>count_spi_optimized_messages :=
                                  count_spi_optimized_messages s3 + 1\<rparr>
                        else s3)
              in case bcm2835dma_schedule_dma_fragment m s4 of
                   Returns (r, s5) \<Rightarrow> Returns (0, s5)
                 | NullDeref \<Rightarrow> NullDeref
                 | OutOfFuel \<Rightarrow> OutOfFuel
                 | ListCorrupt \<Rightarrow> ListCorrupt))) = Returns (r, t)"
    unfolding bcm2835dma_spi_transfer_def st_def [symmetric] st by simp
  show ?thesis
  proof (cases r1)
    case None
    with b a show ?thesis by simp
  next
    case (Some mp)
    with b a show ?thesis
      by (auto simp: Let_def release_frame split: if_splits outcome.splits
            dest!: schedule_msgs)
  qed
qed

lemma release_message_messages:
  assumes "release_message m f s = Returns t"
  shows "transfers (msgs t m') = transfers (msgs s m')
     \<and> is_optimized (msgs t m') = is_optimized (msgs s m')"
  using assms
  by (auto simp: release_message_def Let_def release_frame split: option.splits if_splits)

lemma release_loop_messages:
  assumes "bcm2835dma_release_cb_chain_complete n s = Returns t"
  shows "transfers (msgs t m') = transfers (msgs s m')
     \<and> is_optimized (msgs t m') = is_optimized (msgs s m')"
  using assms
proof (induction n arbitrary: s)
  case 0
  then show ?case by simp
next
  case (Suc n)
  show ?case
  proof (cases "queue s")
    case Nil
    with Suc.prems show ?thesis by simp
  next
    case (Cons m rest)
    show ?thesis
    proof (cases "state (msgs s m)")
      case None
      with Suc.prems Cons show ?thesis by simp
    next
      case (Some f)
      show ?thesis
      proof (cases "sentinel_pending s f")
        case True
        with Suc.prems Cons Some show ?thesis by simp
      next
        case False
        with Suc.prems Cons Some obtain s1 where
          s1: "release_message m f s = Returns s1"
            "bcm2835dma_release_cb_chain_complete n s1 = Returns t"
          by (auto split: outcome.splits)
        from Suc.IH [OF s1(2)] release_message_messages [OF s1(1)] show ?thesis by simp
      qed
    qed
  qed
qed

lemma driver_step_verified:
  assumes "optimized_verified s" "driver_step e s = Returns t"
  shows "optimized_verified t"
proof (cases e)
  case (Submit m)
  with assms(2) obtain r where "bcm2835dma_spi_transfer m s = Returns (r, t)"
    by (auto simp: driver_step_def split: outcome.splits)
  from spi_transfer_messages [OF this] assms(1) show ?thesis
    by (simp add: optimized_verified_def)
next
  case Interrupt
  with assms(2) have "bcm2835dma_release_cb_chain_complete (Suc (length (queue s))) s = Returns t"
    by (simp add: driver_step_def del: bcm2835dma_release_cb_chain_complete.simps)
  from release_loop_messages [OF this] assms(1) show ?thesis
    by (simp add: optimized_verified_def)
next
  case (HwWrite a v)
  with assms show ?thesis by (auto simp: driver_step_def optimized_verified_def)
next
  case (HwStatus v)
  with assms show ?thesis by (auto simp: driver_step_def optimized_verified_def)
qed

lemma spi_async_verified:
  assumes "optimized_verified s" "spi_async rest dev m s = Returns (r, t)"
  shows "optimized_verified t"
proof -
  have upd: "optimized_verified (s\<lparr>msgs := (msgs s)(m := (msgs s m)\<lparr>status := x\<rparr>)\<rparr>)"
    "optimized_verified (s\<lparr>msgs := (msgs s)(m := (msgs s m)\<lparr>spi := d\<rparr>)\<rparr>)"
    "optimized_verified (s\<lparr>msgs := (msgs s)(m := (msgs s m)\<lparr>spi := d, status := x\<rparr>)\<rparr>)"
    for x d
    using assms(1) by (simp_all add: optimized_verified_def)
  have tr: "optimized_verified t"
    if "optimized_verified u" "bcm2835dma_spi_transfer m u = Returns (r, t)" for u
    using spi_transfer_messages [OF that(2)] that(1) by (simp add: optimized_verified_def)
  show ?thesis
  proof (cases "is_optimized (msgs s m)")
    case True
    show ?thesis
    proof (cases "dev \<noteq> spi (msgs s m)")
      case d: True
      with True assms show ?thesis by (simp add: spi_async_def)
    next
      case False
      with True assms(2) have "bcm2835dma_spi_transfer m
          (s\<lparr>msgs := (msgs s)(m := (msgs s m)\<lparr>status := - EINPROGRESS\<rparr>)\<rparr>) = Returns (r, t)"
        by (simp add: spi_async_def)
      from tr [OF upd(1) this] show ?thesis .
    qed
  next
    case False
    show ?thesis
    proof (cases "spi_verify rest ((msgs s m)\<lparr>spi := dev\<rparr>) \<noteq> 0")
      case v: True
      with False assms(2) have "t = s\<lparr>msgs := (msgs s)(m := (msgs s m)\<lparr>spi := dev\<rparr>)\<rparr>"
        by (simp add: spi_async_def Let_def)
      with upd(2) show ?thesis by simp
    next
      case v: False
      with False assms(2) have "bcm2835dma_spi_transfer m
          (s\<lparr>msgs := (msgs s)(m := (msgs s m)\<lparr>spi := dev, status := - EINPROGRESS\<rparr>)\<rparr>)
            = Returns (r, t)"
        by (simp add: spi_async_def Let_def)
      from tr [OF upd(3) this] show ?thesis .
    qed
  qed
qed


lemma unoptimize_verified:
  assumes "optimized_verified s" "spi_message_unoptimize use m s = Returns t"
  shows "optimized_verified t"
proof (cases "is_optimized (msgs s m)")
  case False
  with assms show ?thesis by (simp add: spi_message_unoptimize_def)
next
  case True
  with assms(2) obtain u where u: "(if use then bcm2835dma_spi_message_unoptimize m s
      else Returns s) = Returns u"
    and t: "t = u\<lparr>msgs := (msgs u)(m := (msgs u m)\<lparr>is_optimized := False\<rparr>)\<rparr>"
    by (auto simp: spi_message_unoptimize_def split: outcome.splits)
  have "transfers (msgs u m') = transfers (msgs s m')
     \<and> is_optimized (msgs u m') = is_optimized (msgs s m')" for m'
    using u
    by (auto simp: bcm2835dma_spi_message_unoptimize_def Let_def release_frame
          split: if_splits option.splits)
  with assms(1) t show ?thesis by (simp add: optimized_verified_def)
qed

lemma optimize_verified:
  assumes "optimized_verified s" "spi_message_optimize rest use dev m s = Returns (r, t)"
  shows "optimized_verified t"
proof -
  from assms(2) obtain s0 where s0: "(if is_optimized (msgs s m)
      then spi_message_unoptimize use m s else Returns s) = Returns s0"
    by (auto simp: spi_message_optimize_def split: outcome.splits)
  have v0: "optimized_verified s0"
    using s0 assms(1) unoptimize_verified by (auto split: if_splits)
  define s1 where "s1 = s0\<lparr>msgs := (msgs s0)(m := (msgs s0 m)\<lparr>spi := dev\<rparr>)\<rparr>"
  have v1: "optimized_verified s1" using v0 by (simp add: optimized_verified_def s1_def)
  from assms(2) have b: "(if spi_verify rest (msgs s1 m) \<noteq> 0
       then Returns (spi_verify rest (msgs s1 m), s1)
       else
                (case (if use then bcm2835dma_spi_message_optimize m s1
                       else Returns (0, s1)) of
                   Returns (r, s2) \<Rightarrow>
                     if r \<noteq> 0 then Returns (r, s2)
                     else Returns (0,
                            s2\<lparr>msgs := (msgs s2)(m := (msgs s2 m)\<lparr>is_optimized := True\<rparr>)\<rparr>)
                 | NullDeref \<Rightarrow> NullDeref
                 | OutOfFuel \<Rightarrow> OutOfFuel
                 | ListCorrupt \<Rightarrow> ListCorrupt)) = Returns (r, t)"
    unfolding spi_message_optimize_def s0 outcome.case Let_def s1_def [symmetric] by simp
  show ?thesis
  proof (cases "spi_verify rest (msgs s1 m) \<noteq> 0")
    case True
    with b v1 show ?thesis by simp
  next
    case False
    then have ne: "transfers (msgs s1 m) \<noteq> []"
      by (auto simp: spi_verify_def EINVAL_def split: if_splits)
    from False b obtain r2 s2 where s2: "(if use then bcm2835dma_spi_message_optimize m s1
                       else Returns (0, s1)) = Returns (r2, s2)"
      and t: "t = s2 \<or> t = s2\<lparr>msgs := (msgs s2)(m := (msgs s2 m)\<lparr>is_optimized := True\<rparr>)\<rparr>"
      by (auto split: outcome.splits if_splits)
    have "transfers (msgs s2 m') = transfers (msgs s1 m')
     \<and> is_optimized (msgs s2 m') = is_optimized (msgs s1 m')" for m'
      using s2
      by (auto simp: bcm2835dma_spi_message_optimize_def Let_def
            split: if_splits outcome.splits dest!: compile_msgs)
    with v1 ne t show ?thesis by (auto simp: optimized_verified_def split: if_splits)
  qed
qed

text \<open>
  C7.  In a state in which every optimized message has been verified, as
  \<open>spi_message_optimize\<close> leaves it, a message without transfers is not
  optimized, and \<open>__spi_async\<close> as well as \<open>spi_message_optimize\<close> reject it
  with \<open>-EINVAL\<close> before the driver is called: the state is the one before
  the call except for the device pointer of the message, so nothing is
  queued, no fragment is fetched or allocated and no cache changes.  That
  every optimized message has been verified is kept by \<open>__spi_async\<close>,
  \<open>spi_message_optimize\<close>, \<open>spi_message_unoptimize\<close> and every event of
  the driver, and holds when no message is optimized.
\<close>

theorem empty_message_rejected_at_submission:
  assumes "optimized_verified s" and "transfers (msgs s m) = []"
  shows "spi_async rest dev m s
           = Returns (- EINVAL, s\<lparr>msgs := (msgs s)(m := (msgs s m)\<lparr>spi := dev\<rparr>)\<rparr>)
     \<and> spi_message_optimize rest use dev m s
           = Returns (- EINVAL, s\<lparr>msgs := (msgs s)(m := (msgs s m)\<lparr>spi := dev\<rparr>)\<rparr>)
     \<and> outcome_map (queue \<circ> snd) (spi_async rest dev m s) = Some (queue s)
     \<and> outcome_map (caches \<circ> snd) (spi_async rest dev m s) = Some (caches s)
     \<and> outcome_map (alloc_log \<circ> snd) (spi_async rest dev m s) = Some (alloc_log s)
     \<and> (\<forall>m' dev' r t. spi_async rest dev' m' s = Returns (r, t) \<longrightarrow> optimized_verified t)
     \<and> (\<forall>m' dev' r t. spi_message_optimize rest use dev' m' s = Returns (r, t)
           \<longrightarrow> optimized_verified t)
     \<and> (\<forall>m' t. spi_message_unoptimize use m' s = Returns t \<longrightarrow> optimized_verified t)
     \<and> (\<forall>e t. driver_step e s = Returns t \<longrightarrow> optimized_verified t)"
proof -
  from assms have no: "\<not> is_optimized (msgs s m)" by (auto simp: optimized_verified_def)
  have a: "spi_async rest dev m s
           = Returns (- EINVAL, s\<lparr>msgs := (msgs s)(m := (msgs s m)\<lparr>spi := dev\<rparr>)\<rparr>)"
    using no assms(2) by (simp add: spi_async_def spi_verify_def Let_def EINVAL_def)
  have b: "spi_message_optimize rest use dev m s
           = Returns (- EINVAL, s\<lparr>msgs := (msgs s)(m := (msgs s m)\<lparr>spi := dev\<rparr>)\<rparr>)"
    using no assms(2) by (simp add: spi_message_optimize_def spi_verify_def Let_def EINVAL_def)
  from a b show ?thesis
    using spi_async_verified [OF assms(1)] optimize_verified [OF assms(1)]
      unoptimize_verified [OF assms(1)] driver_step_verified [OF assms(1)]
    by (simp add: outcome_map_def)
qed

theorem empty_message_rejected_at_submission_witness:
  "optimized_verified dstate0 \<and> optimized_verified dstate_empty_msg
   \<and> transfers (msgs dstate_empty_msg 1) = []
   \<and> outcome_map fst (spi_async (\<lambda>msg. 0) 0 1 dstate_empty_msg) = Some (- EINVAL)
   \<and> outcome_map fst (spi_message_optimize (\<lambda>msg. 0) True 0 1 dstate_empty_msg)
        = Some (- EINVAL)
   \<and> outcome_map (queue \<circ> snd) (spi_async (\<lambda>msg. 0) 0 1 dstate_empty_msg) = Some []
   \<and> outcome_map (cache_idle 0 \<circ> snd) (spi_async (\<lambda>msg. 0) 0 1 dstate_empty_msg) = Some []
   \<and> outcome_map (cache_active 0 \<circ> snd) (spi_async (\<lambda>msg. 0) 0 1 dstate_empty_msg) = Some []
   \<and> outcome_map (alloc_log \<circ> snd) (spi_async (\<lambda>msg. 0) 0 1 dstate_empty_msg) = Some []"
proof -
  have v: "optimized_verified dstate_empty_msg" "transfers (msgs dstate_empty_msg 1) = []"
    "optimized_verified dstate0"
    by (simp_all add: optimized_verified_def dstate_empty_msg_def dstate0_def msg0_def
          xferA4_def)
  note t = empty_message_rejected_at_submission [OF v(1,2), of "\<lambda>msg. 0" 0 True]
  from t have "spi_async (\<lambda>msg. 0) 0 1 dstate_empty_msg
           = Returns (- EINVAL, dstate_empty_msg\<lparr>msgs := (msgs dstate_empty_msg)
               (1 := (msgs dstate_empty_msg 1)\<lparr>spi := 0\<rparr>)\<rparr>)"
    and "spi_message_optimize (\<lambda>msg. 0) True 0 1 dstate_empty_msg
           = Returns (- EINVAL, dstate_empty_msg\<lparr>msgs := (msgs dstate_empty_msg)
               (1 := (msgs dstate_empty_msg 1)\<lparr>spi := 0\<rparr>)\<rparr>)"
    by blast+
  with v show ?thesis
    by (simp add: outcome_map_def cache_idle_def cache_active_def dstate_empty_msg_def
          dstate0_def cache0_def)
qed

section \<open>Arming the engine\<close>

lemma release_loop_prefix:
  assumes "\<forall>m \<in> set (queue s). msg_ready s m" "distinct (queue s)" "length (queue s) < n"
  shows "\<exists>s'. bcm2835dma_release_cb_chain_complete n s = Returns s'
     \<and> queue s' = dropWhile (\<lambda>m. \<not> msg_pending s m) (queue s)
     \<and> dequeued (trace s') = dequeued (trace s) @ takeWhile (\<lambda>m. \<not> msg_pending s m) (queue s)
     \<and> same_chains s s' \<and> mem s' = mem s \<and> same_engine s s'"
  using assms
proof (induction n arbitrary: s)
  case 0
  then show ?case by simp
next
  case (Suc n)
  show ?case
  proof (cases "queue s")
    case Nil
    then show ?thesis by (simp add: same_chains_refl same_engine_def)
  next
    case (Cons m rest)
    with Suc.prems have rdy: "msg_ready s m" by simp
    then obtain f where f: "state (msgs s m) = Some f" "message (merged s f) = Some m"
      by (auto simp: msg_ready_def split: option.splits)
    show ?thesis
    proof (cases "sentinel_pending s f")
      case True
      then show ?thesis using Cons f
        by (simp add: msg_pending_def same_chains_refl same_engine_def)
    next
      case False
      from release_message_ok [OF f(2)] obtain s1 where
        s1: "release_message m f s = Returns s1" "queue s1 = removeAll m (queue s)"
          "dequeued (trace s1) = dequeued (trace s) @ [m]" "same_chains s s1"
          "mem s1 = mem s" "dma_rx_CS s1 = dma_rx_CS s" "count_dma_started s1 = count_dma_started s"
          "count_dma_still_running s1 = count_dma_still_running s"
        by blast
      from Suc.prems Cons have q1: "queue s1 = rest" using s1(2) by simp
      have "\<forall>m \<in> set (queue s1). msg_ready s1 m"
        using Suc.prems(1) Cons q1 same_chains_ready [OF s1(4)] by simp
      moreover have "distinct (queue s1)" using Suc.prems(2) Cons q1 by simp
      moreover have "length (queue s1) < n" using Suc.prems(3) Cons q1 by simp
      ultimately obtain s' where
        s': "bcm2835dma_release_cb_chain_complete n s1 = Returns s'"
          "queue s' = dropWhile (\<lambda>m. \<not> msg_pending s1 m) (queue s1)"
          "dequeued (trace s') = dequeued (trace s1) @ takeWhile (\<lambda>m. \<not> msg_pending s1 m) (queue s1)"
          "same_chains s1 s'" "mem s' = mem s1" "same_engine s1 s'"
        using Suc.IH [of s1] by blast
      have pend: "(\<lambda>m. \<not> msg_pending s1 m) = (\<lambda>m. \<not> msg_pending s m)"
        using same_chains_pending [OF s1(4) s1(5)] by simp
      have np: "\<not> msg_pending s m" using False f by (simp add: msg_pending_def)
      have "bcm2835dma_release_cb_chain_complete (Suc n) s = Returns s'"
        using Cons f False s1(1) s'(1) by simp
      moreover have "queue s' = dropWhile (\<lambda>m. \<not> msg_pending s m) (queue s)"
        using s'(2) pend q1 Cons np by simp
      moreover have "dequeued (trace s') =
          dequeued (trace s) @ takeWhile (\<lambda>m. \<not> msg_pending s m) (queue s)"
        using s'(3) s1(3) pend q1 Cons np by simp
      moreover have "same_chains s s'" using s1(4) s'(4) by (rule same_chains_trans)
      moreover have "same_engine s s'" using s1(6-8) s'(6) by (simp add: same_engine_def)
      moreover have "mem s' = mem s" using s1(5) s'(5) by simp
      ultimately show ?thesis by blast
    qed
  qed
qed

lemma schedule_total:
  assumes qr: "queue_ready s" and sc: "schedulable s m"
  shows "\<exists>s1. bcm2835dma_schedule_dma_fragment m s = Returns (0, s1)
     \<and> queue s1 = queue s @ [m] \<and> same_chains s s1 \<and> mem s1 = mem s \<and> queue_ready s1
     \<and> (queue s \<noteq> [] \<longrightarrow> linked_after s s1 (last (queue s)) m)
     \<and> (dma_is_idle s \<longrightarrow>
          (\<exists>f h. state (msgs s m) = Some f \<and> link_head (frags s f) = Some h
             \<and> dma_rx_ADDR s1 = cb_dma (links s h))
          \<and> dma_rx_CS s1 = BCM2835_DMA_CS_ACTIVE
          \<and> count_dma_started s1 = count_dma_started s + 1
          \<and> count_dma_still_running s1 = count_dma_still_running s)
     \<and> (\<not> dma_is_idle s \<longrightarrow> pure_append s m s1)"
proof -
  from sc have rdy: "msg_ready s m" and nq: "m \<notin> set (queue s)"
    by (simp_all add: schedulable_def)
  from rdy obtain f h where f: "state (msgs s m) = Some f" "link_head (frags s f) = Some h"
    "message (merged s f) = Some m"
    by (auto simp: msg_ready_def split: option.splits)
  from qr have dq: "distinct (queue s)" and ar: "\<And>q. q \<in> set (queue s) \<Longrightarrow> msg_ready s q"
    by (simp_all add: queue_ready_def list_all_iff)
  have qr1: "queue_ready s1" if "queue s1 = queue s @ [m]" "same_chains s s1" for s1
    using that dq nq ar rdy same_chains_ready [OF that(2)]
    by (auto simp: queue_ready_def list_all_iff)
  show ?thesis
  proof (cases "queue s = []")
    case True
    define s1 where "s1 = (if dma_is_idle s
       then s\<lparr>queue := [m], dma_rx_ADDR := cb_dma (links s h),
              dma_rx_CS := BCM2835_DMA_CS_ACTIVE, last_message_dma_was_running := 0,
              count_dma_started := count_dma_started s + 1\<rparr>
       else s\<lparr>queue := [m], last_message_dma_was_running := 1,
              count_dma_still_running := count_dma_still_running s + 1\<rparr>)"
    have r: "bcm2835dma_schedule_dma_fragment m s = Returns (0, s1)"
      using True f nq
      by (simp add: bcm2835dma_schedule_dma_fragment_def Let_def s1_def dma_is_idle_def)
    have q1: "queue s1 = queue s @ [m]" "same_chains s s1" "mem s1 = mem s"
      using True by (simp_all add: s1_def same_chains_def)
    have eng: "(dma_is_idle s \<longrightarrow>
          (\<exists>f h. state (msgs s m) = Some f \<and> link_head (frags s f) = Some h
             \<and> dma_rx_ADDR s1 = cb_dma (links s h))
          \<and> dma_rx_CS s1 = BCM2835_DMA_CS_ACTIVE
          \<and> count_dma_started s1 = count_dma_started s + 1
          \<and> count_dma_still_running s1 = count_dma_still_running s)
     \<and> (\<not> dma_is_idle s \<longrightarrow> pure_append s m s1)"
      using True f by (cases "dma_is_idle s") (simp_all add: s1_def pure_append_def)
    from r q1 qr1 [OF q1(1,2)] True eng show ?thesis by simp
  next
    case False
    then have "msg_ready s (last (queue s))" using ar by simp
    then obtain lf lt where lf: "state (msgs s (last (queue s))) = Some lf"
        "link_tail (frags s lf) = Some lt"
      by (auto simp: msg_ready_def split: option.splits)
    define s2 where "s2 = s\<lparr>queue := queue s @ [m],
        links := (links s)(lt := (links s lt)\<lparr>cb_next := cb_dma (links s h)\<rparr>)\<rparr>"
    define s1 where "s1 = (if dma_is_idle s
       then s2\<lparr>dma_rx_ADDR := cb_dma (links s2 h),
              dma_rx_CS := BCM2835_DMA_CS_ACTIVE, last_message_dma_was_running := 0,
              count_dma_started := count_dma_started s + 1\<rparr>
       else s2\<lparr>last_message_dma_was_running := 1,
              count_dma_still_running := count_dma_still_running s + 1\<rparr>)"
    have r: "bcm2835dma_schedule_dma_fragment m s = Returns (0, s1)"
      using False f lf nq
      by (simp add: bcm2835dma_schedule_dma_fragment_def bcm2835_link_dma_link_def Let_def
            s1_def s2_def dma_is_idle_def)
    have q1: "queue s1 = queue s @ [m]" "same_chains s s1" "mem s1 = mem s"
      by (simp_all add: s1_def s2_def same_chains_def)
    have la: "linked_after s s1 (last (queue s)) m"
      using f lf by (cases "dma_is_idle s") (simp_all add: linked_after_def s1_def s2_def)
    have eng: "(dma_is_idle s \<longrightarrow>
          (\<exists>f h. state (msgs s m) = Some f \<and> link_head (frags s f) = Some h
             \<and> dma_rx_ADDR s1 = cb_dma (links s h))
          \<and> dma_rx_CS s1 = BCM2835_DMA_CS_ACTIVE
          \<and> count_dma_started s1 = count_dma_started s + 1
          \<and> count_dma_still_running s1 = count_dma_still_running s)
     \<and> (\<not> dma_is_idle s \<longrightarrow> pure_append s m s1)"
      using f la q1(1)
      by (cases "dma_is_idle s") (simp_all add: s1_def s2_def pure_append_def)
    from r q1 qr1 [OF q1(1,2)] la eng show ?thesis by simp
  qed
qed

lemma step_ready:
  assumes qr: "queue_ready s" and ws: "well_scheduled (e # es) s"
    and ni: "\<not> dma_is_idle s" and hw: "hw_stays_active (e # es)"
  shows "\<exists>s1. step e s = Returns s1 \<and> queue_ready s1 \<and> well_scheduled es s1
     \<and> \<not> dma_is_idle s1 \<and> hw_stays_active es
     \<and> count_dma_started s1 = count_dma_started s
     \<and> count_dma_still_running s1
         = count_dma_still_running s + of_nat (length (submitted [e]))
     \<and> (e \<noteq> Interrupt \<longrightarrow> queue s \<noteq> [] \<longrightarrow> queue s1 \<noteq> [])"
proof (cases e)
  case (Submit m)
  with ws have sc: "schedulable s m" by simp
  from schedule_total [OF qr sc] ni obtain s1 where
    s1: "bcm2835dma_schedule_dma_fragment m s = Returns (0, s1)" "queue_ready s1"
      "pure_append s m s1" by blast
  then have st: "step e s = Returns s1" using Submit by (simp add: step_def)
  with ws have "well_scheduled es s1" by simp
  moreover from s1(3) ni have "\<not> dma_is_idle s1" by (simp add: pure_append_def dma_is_idle_def)
  moreover from hw Submit have "hw_stays_active es" by simp
  ultimately show ?thesis using st s1(2,3) Submit by (simp add: pure_append_def)
next
  case Interrupt
  from qr have "\<forall>m \<in> set (queue s). msg_ready s m" "distinct (queue s)"
    "length (queue s) < Suc (length (queue s))" by (simp_all add: queue_ready_def list_all_iff)
  from release_loop_prefix [OF this] obtain s1 where
    s1: "bcm2835dma_release_cb_chain_complete (Suc (length (queue s))) s = Returns s1"
      "queue s1 = dropWhile (\<lambda>m. \<not> msg_pending s m) (queue s)"
      "same_chains s s1" "same_engine s s1"
    by blast
  then have st: "step e s = Returns s1" using Interrupt
    by (simp add: step_def del: bcm2835dma_release_cb_chain_complete.simps)
  with ws have "well_scheduled es s1" by simp
  moreover have "queue_ready s1"
    using qr s1(2) same_chains_ready [OF s1(3)]
    by (auto simp: queue_ready_def list_all_iff dest: set_dropWhileD)
  moreover from s1(4) ni have "\<not> dma_is_idle s1" by (simp add: same_engine_def dma_is_idle_def)
  moreover from hw Interrupt have "hw_stays_active es" by simp
  ultimately show ?thesis using st s1(4) Interrupt by (simp add: same_engine_def)
next
  case (HwWrite a v)
  let ?t = "s\<lparr>mem := (mem s)(a := v)\<rparr>"
  have st: "step e s = Returns ?t" using HwWrite by (simp add: step_def)
  with ws have "well_scheduled es ?t" by simp
  moreover have "msg_ready ?t = msg_ready s" by (intro ext) (simp add: msg_ready_def split: option.splits)
  then have "queue_ready ?t" using qr by (simp add: queue_ready_def)
  moreover from hw HwWrite have "hw_stays_active es" by simp
  ultimately show ?thesis using st ni HwWrite by (simp add: dma_is_idle_def)
next
  case (HwStatus v)
  let ?t = "s\<lparr>dma_rx_CS := v\<rparr>"
  have st: "step e s = Returns ?t" using HwStatus by (simp add: step_def)
  with ws have "well_scheduled es ?t" by simp
  moreover have "msg_ready ?t = msg_ready s" by (intro ext) (simp add: msg_ready_def split: option.splits)
  then have "queue_ready ?t" using qr by (simp add: queue_ready_def)
  moreover from hw HwStatus have "hw_stays_active es" "v AND BCM2835_DMA_CS_ACTIVE \<noteq> 0"
    by simp_all
  ultimately show ?thesis using st HwStatus by (simp add: dma_is_idle_def)
qed

lemma run_appends:
  assumes "queue_ready s" "\<not> dma_is_idle s" "hw_stays_active es" "well_scheduled es s"
  shows "\<exists>s'. run es s = Returns s'
     \<and> count_dma_started s' = count_dma_started s
     \<and> count_dma_still_running s'
         = count_dma_still_running s + of_nat (length (submitted es))
     \<and> (\<forall>es1 m2 es2. es = es1 @ Submit m2 # es2 \<longrightarrow>
          (\<exists>t t2. run es1 s = Returns t
             \<and> bcm2835dma_schedule_dma_fragment m2 t = Returns (0, t2)
             \<and> pure_append t m2 t2
             \<and> (queue s \<noteq> [] \<and> Interrupt \<notin> set es1 \<longrightarrow>
                  linked_after t t2 (last (queue t)) m2)))"
  using assms
proof (induction es arbitrary: s)
  case Nil
  then show ?case by simp
next
  case (Cons e es)
  from step_ready [OF Cons.prems(1,4,2,3)] obtain s1 where
    s1: "step e s = Returns s1" "queue_ready s1" "well_scheduled es s1"
      "\<not> dma_is_idle s1" "hw_stays_active es"
      "count_dma_started s1 = count_dma_started s"
      "count_dma_still_running s1
         = count_dma_still_running s + of_nat (length (submitted [e]))"
      "e \<noteq> Interrupt \<longrightarrow> queue s \<noteq> [] \<longrightarrow> queue s1 \<noteq> []"
    by blast
  from Cons.IH [OF s1(2,4,5,3)] obtain s' where
    s': "run es s1 = Returns s'" "count_dma_started s' = count_dma_started s1"
      "count_dma_still_running s'
         = count_dma_still_running s1 + of_nat (length (submitted es))"
      "\<forall>es1 m2 es2. es = es1 @ Submit m2 # es2 \<longrightarrow>
          (\<exists>t t2. run es1 s1 = Returns t
             \<and> bcm2835dma_schedule_dma_fragment m2 t = Returns (0, t2)
             \<and> pure_append t m2 t2
             \<and> (queue s1 \<noteq> [] \<and> Interrupt \<notin> set es1 \<longrightarrow>
                  linked_after t t2 (last (queue t)) m2))"
    by blast
  have sub: "length (submitted (e # es)) = length (submitted [e]) + length (submitted es)"
    by (cases e) simp_all
  have "run (e # es) s = Returns s'" using s1(1) s'(1) by simp
  moreover have "count_dma_started s' = count_dma_started s" using s1(6) s'(2) by simp
  moreover have "count_dma_still_running s'
         = count_dma_still_running s + of_nat (length (submitted (e # es)))"
    using s1(7) s'(3) sub by simp
  moreover have "\<exists>t t2. run es1 s = Returns t
             \<and> bcm2835dma_schedule_dma_fragment m2 t = Returns (0, t2)
             \<and> pure_append t m2 t2
             \<and> (queue s \<noteq> [] \<and> Interrupt \<notin> set es1 \<longrightarrow>
                  linked_after t t2 (last (queue t)) m2)"
    if eq: "e # es = es1 @ Submit m2 # es2" for es1 m2 es2
  proof (cases es1)
    case Nil
    with eq have e: "e = Submit m2" by simp
    with Cons.prems(4) have "schedulable s m2" by simp
    from schedule_total [OF Cons.prems(1) this] Cons.prems(2) Nil show ?thesis
      by (auto simp: pure_append_def)
  next
    case (Cons e' es1')
    with eq have e: "e' = e" "es = es1' @ Submit m2 # es2" by simp_all
    from s'(4) e(2) obtain t t2 where
      t: "run es1' s1 = Returns t" "bcm2835dma_schedule_dma_fragment m2 t = Returns (0, t2)"
        "pure_append t m2 t2"
        "queue s1 \<noteq> [] \<and> Interrupt \<notin> set es1' \<longrightarrow> linked_after t t2 (last (queue t)) m2"
      by blast
    have "run es1 s = Returns t" using Cons e(1) s1(1) t(1) by simp
    moreover have "queue s \<noteq> [] \<and> Interrupt \<notin> set es1 \<longrightarrow>
        linked_after t t2 (last (queue t)) m2"
      using t(4) s1(8) Cons e(1) by auto
    ultimately show ?thesis using t(2,3) by blast
  qed
  ultimately show ?case by blast
qed

lemma sched1:
  "bcm2835dma_schedule_dma_fragment 1 dstate_two_ready = Returns (0, dstate_sched1)"
  by (simp add: bcm2835dma_schedule_dma_fragment_def bcm2835_link_dma_link_def Let_def
        dma_is_idle_def example_defs BCM2835_DMA_CS_ACTIVE_def)

lemma sched2:
  "bcm2835dma_schedule_dma_fragment 2 dstate_sched1 = Returns (0, dstate_sched2)"
  by (simp add: bcm2835dma_schedule_dma_fragment_def bcm2835_link_dma_link_def Let_def
        dma_is_idle_def example_defs BCM2835_DMA_CS_ACTIVE_def)



text \<open>
  C3.  For a message that is ready and not on the queue, in a state whose
  queued messages are ready and distinct, \<open>bcm2835dma_schedule_dma_fragment\<close>
  returns 0, has appended the message to the queue and, when the queue was
  not empty, has linked the tail of the previous chain to the head of the new
  one.  It arms the engine (writes the address of the head control block and
  the active bit, counts one start) if the status register read idle, and
  otherwise leaves both registers and the count of starts alone, linking as
  said and counting one append.  When the engine was idle and the hardware
  does not drop the active bit afterwards, every run that follows with
  submissions of ready messages returns and adds no further start: one arm,
  and every later submission is such an append, linked after the previous
  tail as long as no interrupt has emptied the queue.  (A submission that
  finds the queue empty after a reclaim while the status still reads active
  has no previous tail to be linked to.)
\<close>

theorem schedule_arms_iff_idle:
  assumes "queue_ready s" and "schedulable s m"
  shows "\<exists>s1. bcm2835dma_schedule_dma_fragment m s = Returns (0, s1)
     \<and> queue s1 = queue s @ [m]
     \<and> (queue s \<noteq> [] \<longrightarrow> linked_after s s1 (last (queue s)) m)
     \<and> (dma_is_idle s \<longrightarrow>
          (\<exists>f h. state (msgs s m) = Some f \<and> link_head (frags s f) = Some h
             \<and> dma_rx_ADDR s1 = cb_dma (links s h))
          \<and> dma_rx_CS s1 = BCM2835_DMA_CS_ACTIVE
          \<and> count_dma_started s1 = count_dma_started s + 1
          \<and> count_dma_still_running s1 = count_dma_still_running s)
     \<and> (\<not> dma_is_idle s \<longrightarrow> pure_append s m s1)
     \<and> (\<forall>es. dma_is_idle s \<and> hw_stays_active es \<and> well_scheduled es s1 \<longrightarrow>
          (\<exists>s'. run es s1 = Returns s'
             \<and> count_dma_started s' = count_dma_started s + 1
             \<and> count_dma_still_running s'
                 = count_dma_still_running s + of_nat (length (submitted es))
             \<and> (\<forall>es1 m2 es2. es = es1 @ Submit m2 # es2 \<longrightarrow>
                  (\<exists>t t2. run es1 s1 = Returns t
                     \<and> bcm2835dma_schedule_dma_fragment m2 t = Returns (0, t2)
                     \<and> pure_append t m2 t2
                     \<and> (Interrupt \<notin> set es1 \<longrightarrow>
                          linked_after t t2 (last (queue t)) m2)))))"
proof -
  from schedule_total [OF assms] obtain s1 where
    s1: "bcm2835dma_schedule_dma_fragment m s = Returns (0, s1)"
      "queue s1 = queue s @ [m]" "queue_ready s1"
      "queue s \<noteq> [] \<longrightarrow> linked_after s s1 (last (queue s)) m"
      "dma_is_idle s \<longrightarrow>
          (\<exists>f h. state (msgs s m) = Some f \<and> link_head (frags s f) = Some h
             \<and> dma_rx_ADDR s1 = cb_dma (links s h))
          \<and> dma_rx_CS s1 = BCM2835_DMA_CS_ACTIVE
          \<and> count_dma_started s1 = count_dma_started s + 1
          \<and> count_dma_still_running s1 = count_dma_still_running s"
      "\<not> dma_is_idle s \<longrightarrow> pure_append s m s1"
    by blast
  have "\<exists>s'. run es s1 = Returns s'
             \<and> count_dma_started s' = count_dma_started s + 1
             \<and> count_dma_still_running s'
                 = count_dma_still_running s + of_nat (length (submitted es))
             \<and> (\<forall>es1 m2 es2. es = es1 @ Submit m2 # es2 \<longrightarrow>
                  (\<exists>t t2. run es1 s1 = Returns t
                     \<and> bcm2835dma_schedule_dma_fragment m2 t = Returns (0, t2)
                     \<and> pure_append t m2 t2
                     \<and> (Interrupt \<notin> set es1 \<longrightarrow>
                          linked_after t t2 (last (queue t)) m2)))"
    if h: "dma_is_idle s \<and> hw_stays_active es \<and> well_scheduled es s1" for es
  proof -
    from h s1(5) have e1: "dma_rx_CS s1 = BCM2835_DMA_CS_ACTIVE"
      "count_dma_started s1 = count_dma_started s + 1"
      "count_dma_still_running s1 = count_dma_still_running s" by simp_all
    then have ni: "\<not> dma_is_idle s1" by (simp add: dma_is_idle_def BCM2835_DMA_CS_ACTIVE_def)
    from h have h2: "hw_stays_active es" "well_scheduled es s1" by simp_all
    have ne: "queue s1 \<noteq> []" using s1(2) by simp
    from run_appends [OF s1(3) ni h2] e1 ne show ?thesis by simp
  qed
  with s1(1,2,4,5,6) show ?thesis by blast
qed

theorem schedule_arms_iff_idle_witness:
  "queue_ready dstate_two_ready \<and> schedulable dstate_two_ready 1
   \<and> dma_is_idle dstate_two_ready \<and> hw_stays_active [Submit 2]
   \<and> well_scheduled [Submit 2] dstate_sched1
   \<and> bcm2835dma_schedule_dma_fragment 1 dstate_two_ready = Returns (0, dstate_sched1)
   \<and> run [Submit 2] dstate_sched1 = Returns dstate_sched2
   \<and> queue dstate_sched1 = [1]
   \<and> dma_rx_CS dstate_sched1 = BCM2835_DMA_CS_ACTIVE
   \<and> count_dma_started dstate_sched1 = count_dma_started dstate_two_ready + 1
   \<and> count_dma_started dstate_sched2 = count_dma_started dstate_two_ready + 1
   \<and> count_dma_still_running dstate_sched2 = count_dma_still_running dstate_two_ready + 1
   \<and> pure_append dstate_sched1 2 dstate_sched2
   \<and> linked_after dstate_sched1 dstate_sched2 1 2"
proof -
  have h: "queue_ready dstate_two_ready" "schedulable dstate_two_ready 1"
    by (simp_all add: queue_ready_def schedulable_def msg_ready_def example_defs)
  have i: "dma_is_idle dstate_two_ready"
    by (simp add: dma_is_idle_def example_defs BCM2835_DMA_CS_ACTIVE_def)
  have w: "hw_stays_active [Submit 2]" "well_scheduled [Submit 2] dstate_sched1"
    using sched2
    by (simp_all add: step_def schedulable_def msg_ready_def example_defs)
  have r: "run [Submit 2] dstate_sched1 = Returns dstate_sched2"
    by (simp add: step_def sched2)
  have q: "queue dstate_sched1 = [1]" "last (queue dstate_sched1) = 1"
    by (simp_all add: example_defs)
  from schedule_arms_iff_idle [OF h] sched1 have t:
    "dma_is_idle dstate_two_ready \<longrightarrow>
          dma_rx_CS dstate_sched1 = BCM2835_DMA_CS_ACTIVE
          \<and> count_dma_started dstate_sched1 = count_dma_started dstate_two_ready + 1"
    "\<forall>es. dma_is_idle dstate_two_ready \<and> hw_stays_active es
        \<and> well_scheduled es dstate_sched1 \<longrightarrow>
          (\<exists>s'. run es dstate_sched1 = Returns s'
             \<and> count_dma_started s' = count_dma_started dstate_two_ready + 1
             \<and> count_dma_still_running s'
                 = count_dma_still_running dstate_two_ready + of_nat (length (submitted es))
             \<and> (\<forall>es1 m2 es2. es = es1 @ Submit m2 # es2 \<longrightarrow>
                  (\<exists>t t2. run es1 dstate_sched1 = Returns t
                     \<and> bcm2835dma_schedule_dma_fragment m2 t = Returns (0, t2)
                     \<and> pure_append t m2 t2
                     \<and> (Interrupt \<notin> set es1 \<longrightarrow>
                          linked_after t t2 (last (queue t)) m2))))"
    by auto
  from t(1) i have a: "dma_rx_CS dstate_sched1 = BCM2835_DMA_CS_ACTIVE"
    "count_dma_started dstate_sched1 = count_dma_started dstate_two_ready + 1" by blast+
  from t(2) i w r have b: "count_dma_started dstate_sched2 = count_dma_started dstate_two_ready + 1"
    "count_dma_still_running dstate_sched2
       = count_dma_still_running dstate_two_ready + of_nat (length (submitted [Submit 2]))"
    "\<forall>es1 m2 es2. [Submit 2] = es1 @ Submit m2 # es2 \<longrightarrow>
                  (\<exists>t t2. run es1 dstate_sched1 = Returns t
                     \<and> bcm2835dma_schedule_dma_fragment m2 t = Returns (0, t2)
                     \<and> pure_append t m2 t2
                     \<and> (Interrupt \<notin> set es1 \<longrightarrow>
                          linked_after t t2 (last (queue t)) m2))"
    by (metis outcome.inject)+
  from b(3) [rule_format, of "[]" 2 "[]"] sched2 q
  have c: "pure_append dstate_sched1 2 dstate_sched2"
    "linked_after dstate_sched1 dstate_sched2 1 2" by auto
  from b(2) have b2: "count_dma_still_running dstate_sched2
       = count_dma_still_running dstate_two_ready + 1" by simp
  show ?thesis using h i w sched1 r q(1) a b(1) b2 c by blast
qed

text \<open>
  An example of the last remark: after message 1 is scheduled, its sentinel
  is written and the interrupt has reclaimed it, the queue is empty while the
  status still reads active; message 2 is then appended without an arm, and
  counted as an append.
\<close>

lemma late_submission_example:
  "outcome_map (\<lambda>t. (queue t, dma_is_idle t)) (run [HwWrite 40 5, Interrupt] dstate_sched1)
      = Some ([], False)
   \<and> outcome_map (\<lambda>t. (queue t, dma_rx_ADDR t, count_dma_started t, count_dma_still_running t))
        (run [HwWrite 40 5, Interrupt, Submit 2] dstate_sched1)
      = Some ([2], 1, 1, 1)"
  by (simp add: step_def example_defs reclaim_defs submit_defs)

end
